theory Spec2Isabelle
  imports Main "HOL-Library.Word"
begin

unbundle bit_operations_syntax

section \<open>Bytes, strings and big-endian integers\<close>

text \<open>
  A \<^verbatim>\<open>std::vector<uint8_t>\<close> is a list of bytes, a \<^verbatim>\<open>std::string\<close> a list of
  characters (each one byte). \<^verbatim>\<open>uint16_t\<close>, \<^verbatim>\<open>uint32_t\<close>, \<^verbatim>\<open>uint64_t\<close> and
  \<^verbatim>\<open>size_t\<close> values that are stored in a structure are words of that width, so the
  casts of the source truncate as they do there.
\<close>

type_synonym byte = "8 word"
type_synonym bytes = "byte list"

definition byte_of_char :: "char \<Rightarrow> byte" where
  "byte_of_char c = of_nat (of_char c)"

definition char_of_byte :: "byte \<Rightarrow> char" where
  "char_of_byte b = char_of (unat b)"

definition bytes_of_string :: "string \<Rightarrow> bytes" where
  "bytes_of_string s = map byte_of_char s"

definition string_of_bytes :: "bytes \<Rightarrow> string" where
  "string_of_bytes bs = map char_of_byte bs"

text \<open>
  The two loops that the codec repeats for every integer field:
  \<^verbatim>\<open>for (i = n - 1; i >= 0; --i) data.push_back((w >> (i * 8)) & 0xFF);\<close> and
  \<^verbatim>\<open>w = 0; for (i = 0; i < n; ++i) w = (w << 8) | data[offset + i];\<close>.
\<close>

definition be_encode :: "nat \<Rightarrow> 'a::len word \<Rightarrow> bytes" where
  "be_encode n w = map (\<lambda>i. ucast (drop_bit (i * 8) w AND 0xFF)) (rev [0..<n])"

definition be_decode :: "bytes \<Rightarrow> 'a::len word" where
  "be_decode bs = foldl (\<lambda>acc b. push_bit 8 acc OR ucast b) 0 bs"

definition be_read :: "(nat \<Rightarrow> byte) \<Rightarrow> nat \<Rightarrow> nat \<Rightarrow> 'a::len word" where
  "be_read rd offset n = foldl (\<lambda>acc i. push_bit 8 acc OR ucast (rd (offset + i))) 0 [0..<n]"

text \<open>
  \<^verbatim>\<open>data[i]\<close> on a vector does not check its index. Inside the vector it is the
  element; past its end the source reads whatever the memory behind the buffer holds,
  which the model receives as \<open>beyond\<close> (byte \<open>k\<close> behind the last element).
\<close>

definition vec_at :: "bytes \<Rightarrow> (nat \<Rightarrow> byte) \<Rightarrow> nat \<Rightarrow> byte" where
  "vec_at data beyond i = (if i < length data then data ! i else beyond (i - length data))"

text \<open>The range \<^verbatim>\<open>[data.begin() + offset, data.begin() + offset + n)\<close>.\<close>

definition subvec :: "bytes \<Rightarrow> nat \<Rightarrow> nat \<Rightarrow> bytes" where
  "subvec data offset n = take n (drop offset data)"

section \<open>VarcHeader: constants, file types, the two fixed headers\<close>

definition VARC_VERSION_MAJOR :: "16 word" where "VARC_VERSION_MAJOR = 0"
definition VARC_VERSION_MINOR :: "16 word" where "VARC_VERSION_MINOR = 3"

definition VARC_SIGNATURE :: bytes where
  "VARC_SIGNATURE = bytes_of_string ''VARC''"

definition SALT_SIZE :: nat where "SALT_SIZE = 32"
definition IV_SIZE :: nat where "IV_SIZE = 16"
definition CHECKSUM_SIZE :: nat where "CHECKSUM_SIZE = 32"
definition ENTRY_HEADER_SIZE :: nat where "ENTRY_HEADER_SIZE = 4 + 8 + 8 + 4 + 2"
definition MAX_PATH_LENGTH :: nat where "MAX_PATH_LENGTH = 65535"

definition ArchiveFlags_ENCRYPTED :: "16 word" where "ArchiveFlags_ENCRYPTED = 0x0001"
definition ArchiveFlags_COMPRESSED :: "16 word" where "ArchiveFlags_COMPRESSED = 0x0002"
definition ArchiveFlags_HAS_METADATA :: "16 word" where "ArchiveFlags_HAS_METADATA = 0x0004"

definition EntryFlags_COMPRESSED :: "32 word" where "EntryFlags_COMPRESSED = 0x0001"
definition EntryFlags_ENCRYPTED :: "32 word" where "EntryFlags_ENCRYPTED = 0x0002"
definition EntryFlags_DIRECTORY :: "32 word" where "EntryFlags_DIRECTORY = 0x0004"
definition EntryFlags_SYMLINK :: "32 word" where "EntryFlags_SYMLINK = 0x0008"

definition FileType_UNKNOWN :: "32 word" where "FileType_UNKNOWN = 0"
definition FileType_TEXT :: "32 word" where "FileType_TEXT = 1"
definition FileType_BINARY :: "32 word" where "FileType_BINARY = 2"
definition FileType_IMAGE :: "32 word" where "FileType_IMAGE = 3"
definition FileType_AUDIO :: "32 word" where "FileType_AUDIO = 4"
definition FileType_VIDEO :: "32 word" where "FileType_VIDEO = 5"
definition FileType_DOCUMENT :: "32 word" where "FileType_DOCUMENT = 6"
definition FileType_ARCHIVE :: "32 word" where "FileType_ARCHIVE = 7"

text \<open>
  \<^verbatim>\<open>memcmp(data + off, lit, n) == 0\<close>. Where the buffer holds fewer than \<open>off + n\<close>
  bytes the source compares past its end; the model lets that comparison fail.
\<close>

definition memcmp_eq :: "bytes \<Rightarrow> nat \<Rightarrow> bytes \<Rightarrow> bool" where
  "memcmp_eq data off lit = (subvec data off (length lit) = lit)"

definition printable :: "byte \<Rightarrow> bool" where
  "printable b = ((32 \<le> b \<and> b \<le> 126) \<or> b = 10 \<or> b = 13 \<or> b = 9)"

text \<open>
  \<^verbatim>\<open>FileType::detect\<close>. The last test of the source is
  \<^verbatim>\<open>printableCount > checkSize * 0.9\<close> in double arithmetic; for the sizes that reach
  it (at most 256) it agrees with the integer comparison written here.
\<close>

definition detect :: "bytes \<Rightarrow> 32 word" where
  "detect data =
    (if length data < 4 then FileType_UNKNOWN
     else if memcmp_eq data 0 [0x89, 0x50, 0x4E, 0x47, 0x0D, 0x0A, 0x1A, 0x0A] then FileType_IMAGE
     else if memcmp_eq data 0 (bytes_of_string ''GIF87a'') \<or> memcmp_eq data 0 (bytes_of_string ''GIF89a'')
       then FileType_IMAGE
     else if (data ! 0 = 0xFF \<and> data ! 1 = 0xD8 \<and> data ! 2 = 0xFF)
           \<or> memcmp_eq data 0 (bytes_of_string ''JFIF'')
           \<or> memcmp_eq data 0 (bytes_of_string ''Exif'')
       then FileType_IMAGE
     else if memcmp_eq data 0 (bytes_of_string ''RIFF'') \<and> 12 \<le> length data
           \<and> memcmp_eq data 8 (bytes_of_string ''WEBP'')
       then FileType_IMAGE
     else if memcmp_eq data 0 (bytes_of_string ''ID3'') \<or> memcmp_eq data 0 [0xFF, 0xFB]
           \<or> memcmp_eq data 0 [0xFF, 0xFA] \<or> memcmp_eq data 0 (bytes_of_string ''OggS'')
       then FileType_AUDIO
     else if memcmp_eq data 0 [0, 0, 0] \<and> 4 < length data
           \<and> memcmp_eq data 4 (bytes_of_string ''ftyp'')
       then FileType_VIDEO
     else if memcmp_eq data 0 (bytes_of_string ''%PDF'') then FileType_DOCUMENT
     else if memcmp_eq data 0 [0x50, 0x4B, 0x03, 0x04] \<or> memcmp_eq data 0 [0x50, 0x4B, 0x05, 0x06]
       then FileType_ARCHIVE
     else
       (let checkSize = min (length data) 256;
            printableCount = length (filter printable (take checkSize data))
        in if 9 * checkSize < 10 * printableCount then FileType_TEXT else FileType_BINARY))"

subsection \<open>GlobalHeader\<close>

text \<open>
  The three \<^verbatim>\<open>std::array\<close> members are lists; every operation below produces them
  with their fixed lengths 4, 32 and 16.
\<close>

record GlobalHeader =
  signature :: bytes
  version :: "16 word"
  flags :: "16 word"
  fileCount :: "32 word"
  salt :: bytes
  iv :: bytes
  reserved :: "64 word"

definition GlobalHeader_new :: GlobalHeader where
  "GlobalHeader_new =
    \<lparr> signature = VARC_SIGNATURE,
      version = push_bit 8 VARC_VERSION_MAJOR OR VARC_VERSION_MINOR,
      flags = 0, fileCount = 0,
      salt = replicate SALT_SIZE 0, iv = replicate IV_SIZE 0, reserved = 0 \<rparr>"

definition GlobalHeader_serialize :: "GlobalHeader \<Rightarrow> bytes" where
  "GlobalHeader_serialize h =
     signature h
     @ [ucast (drop_bit 8 (version h) AND 0xFF), ucast (version h AND 0xFF)]
     @ [ucast (drop_bit 8 (flags h) AND 0xFF), ucast (flags h AND 0xFF)]
     @ be_encode 4 (fileCount h)
     @ map (\<lambda>i. if i < length (salt h) then salt h ! i else 0) [0..<32]
     @ map (\<lambda>i. if i < length (iv h) then iv h ! i else 0) [0..<16]
     @ be_encode 8 (reserved h)"

text \<open>
  \<^verbatim>\<open>GlobalHeader::deserialize\<close> writes into the header it is called on and returns a
  flag; the signature is copied before it is compared, so a mismatch leaves the foreign
  signature in the header. The length test asks for 64 bytes, while the fields add up to
  4 + 2 + 2 + 4 + 32 + 16 + 8 = 68: the loop for \<open>reserved\<close> reads the indices 60 to 67,
  the last four of them past the end of a 64-byte buffer.
\<close>

definition GlobalHeader_deserialize ::
  "(nat \<Rightarrow> byte) \<Rightarrow> GlobalHeader \<Rightarrow> bytes \<Rightarrow> bool \<times> GlobalHeader" where
  "GlobalHeader_deserialize beyond h data =
    (if length data < 64 then (False, h)
     else
       let h1 = h\<lparr>signature := subvec data 0 4\<rparr> in
       if signature h1 \<noteq> VARC_SIGNATURE then (False, h1)
       else
         (True,
          h1\<lparr> version := push_bit 8 (ucast (data ! 4)) OR ucast (data ! 5),
              flags := push_bit 8 (ucast (data ! 6)) OR ucast (data ! 7),
              fileCount := be_read (vec_at data beyond) 8 4,
              salt := subvec data 12 SALT_SIZE,
              iv := subvec data (12 + SALT_SIZE) IV_SIZE,
              reserved := be_read (vec_at data beyond) (12 + SALT_SIZE + IV_SIZE) 8 \<rparr>))"

definition GlobalHeader_isValid :: "GlobalHeader \<Rightarrow> bool" where
  "GlobalHeader_isValid h = (signature h = VARC_SIGNATURE)"

definition GlobalHeader_isEncrypted :: "GlobalHeader \<Rightarrow> bool" where
  "GlobalHeader_isEncrypted h = (flags h AND ArchiveFlags_ENCRYPTED \<noteq> 0)"

definition GlobalHeader_isCompressed :: "GlobalHeader \<Rightarrow> bool" where
  "GlobalHeader_isCompressed h = (flags h AND ArchiveFlags_COMPRESSED \<noteq> 0)"

subsection \<open>EntryHeader\<close>

record EntryHeader =
  pathLength :: "32 word"
  originalSize :: "64 word"
  compressedSize :: "64 word"
  fileType :: "32 word"
  entryFlags :: "32 word"

definition EntryHeader_new :: EntryHeader where
  "EntryHeader_new =
    \<lparr> pathLength = 0, originalSize = 0, compressedSize = 0, fileType = 0, entryFlags = 0 \<rparr>"

definition EntryHeader_fixedSize :: nat where
  "EntryHeader_fixedSize = ENTRY_HEADER_SIZE"

definition EntryHeader_serialize :: "EntryHeader \<Rightarrow> bytes" where
  "EntryHeader_serialize h =
     [ucast (drop_bit 8 (pathLength h) AND 0xFF), ucast (pathLength h AND 0xFF)]
     @ be_encode 8 (originalSize h)
     @ be_encode 8 (compressedSize h)
     @ be_encode 4 (fileType h)
     @ be_encode 4 (entryFlags h)"

definition EntryHeader_deserialize :: "EntryHeader \<Rightarrow> bytes \<Rightarrow> bool \<times> EntryHeader" where
  "EntryHeader_deserialize h data =
    (if length data < EntryHeader_fixedSize then (False, h)
     else
       (True,
        h\<lparr> pathLength := push_bit 8 (ucast (data ! 0)) OR ucast (data ! 1),
            originalSize := be_read ((!) data) 2 8,
            compressedSize := be_read ((!) data) 10 8,
            fileType := be_read ((!) data) 18 4,
            entryFlags := be_read ((!) data) 22 4 \<rparr>))"

section \<open>What the library is linked against and runs on\<close>

text \<open>
  OpenSSL and zlib are not part of the repository. Their functions are parameters of the
  model: every theorem below holds for whatever they compute, and a concrete stand-in
  (\<open>demo_prims\<close>, defined after the archive) is used only to run the model on examples.

  \<^item> \<open>SHA256 data\<close>: the digest written by \<^verbatim>\<open>SHA256()\<close>;
  \<^item> \<open>PBKDF2_HMAC password salt iterations keySize\<close>: the key written by
    \<^verbatim>\<open>PKCS5_PBKDF2_HMAC\<close> (its return value is not checked by the source);
  \<^item> \<open>AES_256_CBC_encrypt key iv plaintext\<close>: the ciphertext of the three \<^verbatim>\<open>EVP_Encrypt*\<close>
    calls, or the message of the \<^verbatim>\<open>runtime_error\<close> the source throws when one fails;
  \<^item> \<open>zlib_deflate level windowBits input\<close>: \<^verbatim>\<open>deflateInit2\<close> followed by one
    \<^verbatim>\<open>deflate(Z_FINISH)\<close> into a buffer of \<^verbatim>\<open>deflateBound\<close> bytes. The outcome is
    the stream when the call returns \<^verbatim>\<open>Z_STREAM_END\<close>, and otherwise the buffer as the
    call leaves it.
\<close>

datatype deflate_outcome = DeflateInitFailed | DeflateNotFinished bytes | DeflateStreamEnd bytes

record prims =
  SHA256 :: "bytes \<Rightarrow> bytes"
  PBKDF2_HMAC :: "string \<Rightarrow> bytes \<Rightarrow> nat \<Rightarrow> nat \<Rightarrow> bytes"
  AES_256_CBC_encrypt :: "bytes \<Rightarrow> bytes \<Rightarrow> bytes \<Rightarrow> string + bytes"
  zlib_deflate :: "int \<Rightarrow> nat \<Rightarrow> bytes \<Rightarrow> deflate_outcome"

text \<open>
  The process environment: the files (a flat store from path to content, with the paths
  an \<^verbatim>\<open>ofstream\<close> can open for writing), the bytes the CSPRNG will hand out next, and
  the memory found behind a buffer that is read past its end.
\<close>

record machine =
  files :: "string \<Rightarrow> bytes option"
  creatable :: "string \<Rightarrow> bool"
  entropy :: bytes
  behind_buffer :: "nat \<Rightarrow> byte"

text \<open>
  How a call can end without returning: a C++ exception that leaves the call, undefined
  behaviour (a copy outside a buffer), or a loop that never ends. A run that ends this
  way is not continued.
\<close>

datatype abort = Throw string | Undefined string | Diverges

text \<open>
  Buffers that the source allocates with a fixed size and hands to a library call: the
  result has that size whatever the call writes.
\<close>

definition fixed_buffer :: "nat \<Rightarrow> bytes \<Rightarrow> bytes" where
  "fixed_buffer n written = take n (written @ replicate n 0)"

text \<open>\<^verbatim>\<open>size_t\<close> and \<^verbatim>\<open>uint64_t\<close> arithmetic on natural numbers.\<close>

definition SIZE_MAX :: nat where "SIZE_MAX = 2 ^ 64 - 1"

definition size_t_add :: "nat \<Rightarrow> nat \<Rightarrow> nat" where
  "size_t_add a b = (a + b) mod 2 ^ 64"

definition size_t_sub :: "nat \<Rightarrow> nat \<Rightarrow> nat" where
  "size_t_sub a b = (a + 2 ^ 64 - b mod 2 ^ 64) mod 2 ^ 64"

section \<open>CryptoEngine\<close>

definition AES_KEY_SIZE :: nat where "AES_KEY_SIZE = 32"
definition PBKDF2_ITERATIONS :: nat where "PBKDF2_ITERATIONS = 100000"
definition HASH_SIZE :: nat where "HASH_SIZE = 32"

record CryptoEngine =
  m_key :: bytes
  m_iv :: bytes
  m_initialized :: bool

definition CryptoEngine_new :: CryptoEngine where
  "CryptoEngine_new = \<lparr> m_key = [], m_iv = [], m_initialized = False \<rparr>"

text \<open>\<^verbatim>\<open>RAND_bytes(buf, n) == 1\<close> hands out the next \<open>n\<close> bytes of the source of randomness.\<close>

definition RAND_bytes :: "nat \<Rightarrow> bytes \<Rightarrow> (bytes \<times> bytes) option" where
  "RAND_bytes n ent = (if n \<le> length ent then Some (take n ent, drop n ent) else None)"

definition generateSalt :: "nat \<Rightarrow> bytes \<Rightarrow> abort + bytes \<times> bytes" where
  "generateSalt n ent =
    (case RAND_bytes n ent of
       None \<Rightarrow> Inl (Throw ''Failed to generate random salt'')
     | Some r \<Rightarrow> Inr r)"

definition generateIV :: "bytes \<Rightarrow> abort + bytes \<times> bytes" where
  "generateIV ent =
    (case RAND_bytes IV_SIZE ent of
       None \<Rightarrow> Inl (Throw ''Failed to generate random IV'')
     | Some r \<Rightarrow> Inr r)"

definition deriveKey :: "prims \<Rightarrow> string \<Rightarrow> bytes \<Rightarrow> nat \<Rightarrow> nat \<Rightarrow> abort + bytes" where
  "deriveKey P password slt iterations keySize =
    (if password = [] then Inl (Throw ''Password cannot be empty for key derivation'')
     else Inr (fixed_buffer keySize (PBKDF2_HMAC P password slt iterations keySize)))"

text \<open>
  \<^verbatim>\<open>initializeFromPassword\<close> assigns the key before it asks for the IV, so an exception
  from the second step leaves the new key in the engine. The result on the left is the
  exception together with the state it leaves behind, for the callers that catch it.
\<close>

definition initializeFromPassword ::
  "prims \<Rightarrow> string \<Rightarrow> bytes \<Rightarrow> CryptoEngine \<Rightarrow> bytes
     \<Rightarrow> (abort \<times> CryptoEngine \<times> bytes) + (CryptoEngine \<times> bytes)" where
  "initializeFromPassword P password slt c ent =
    (case deriveKey P password slt PBKDF2_ITERATIONS AES_KEY_SIZE of
       Inl e \<Rightarrow> Inl (e, c, ent)
     | Inr k \<Rightarrow>
        (case generateIV ent of
           Inl e \<Rightarrow> Inl (e, c\<lparr>m_key := k\<rparr>, ent)
         | Inr (v, ent') \<Rightarrow> Inr (c\<lparr>m_key := k, m_iv := v, m_initialized := True\<rparr>, ent')))"

definition isInitialized :: "CryptoEngine \<Rightarrow> bool" where
  "isInitialized c = (m_initialized c \<and> m_key c \<noteq> [] \<and> m_iv c \<noteq> [])"

definition encrypt :: "prims \<Rightarrow> CryptoEngine \<Rightarrow> bytes \<Rightarrow> abort + bytes" where
  "encrypt P c plaintext =
    (if \<not> isInitialized c then Inl (Throw ''CryptoEngine not initialized'')
     else
       (case AES_256_CBC_encrypt P (m_key c) (m_iv c) plaintext of
          Inl msg \<Rightarrow> Inl (Throw msg)
        | Inr ciphertext \<Rightarrow> Inr ciphertext))"

definition sha256 :: "prims \<Rightarrow> bytes \<Rightarrow> bytes" where
  "sha256 P data = fixed_buffer HASH_SIZE (SHA256 P data)"

definition verifyChecksum :: "prims \<Rightarrow> bytes \<Rightarrow> bytes \<Rightarrow> bool" where
  "verifyChecksum P data storedChecksum =
    (if length storedChecksum \<noteq> HASH_SIZE then False
     else sha256 P data = storedChecksum)"

section \<open>CompressionEngine\<close>

record CompressionEngine =
  m_compressionLevel :: int
  m_windowBits :: nat
  c_initialized :: bool

definition CompressionLevel_DEFAULT :: int where "CompressionLevel_DEFAULT = 6"

definition CompressionEngine_new :: "int \<Rightarrow> CompressionEngine" where
  "CompressionEngine_new level =
    \<lparr> m_compressionLevel = level, m_windowBits = 15 + 16, c_initialized = False \<rparr>"

text \<open>The \<^verbatim>\<open>double\<close> field \<^verbatim>\<open>compressionRatio\<close> of the result is left out.\<close>

record CompressionResult =
  compressedData :: bytes
  cr_originalSize :: "64 word"
  cr_compressedSize :: "64 word"
  cr_success :: bool
  cr_errorMessage :: string

text \<open>
  \<^verbatim>\<open>CompressionEngine::compress\<close>. zlib receives the length as \<^verbatim>\<open>uInt\<close>, 32 bits wide.
\<close>

definition compress :: "prims \<Rightarrow> CompressionEngine \<Rightarrow> bytes \<Rightarrow> CompressionResult" where
  "compress P eng data =
    (let result = \<lparr> compressedData = [], cr_originalSize = of_nat (length data),
                     cr_compressedSize = 0, cr_success = False, cr_errorMessage = [] \<rparr>
     in if data = [] then result\<lparr>cr_success := True, compressedData := data\<rparr>
        else
          (case zlib_deflate P (m_compressionLevel eng) (m_windowBits eng)
                  (take (length data mod 2 ^ 32) data) of
             DeflateInitFailed \<Rightarrow>
               result\<lparr>cr_errorMessage := ''Failed to initialize compression''\<rparr>
           | DeflateNotFinished buffer \<Rightarrow>
               result\<lparr>compressedData := buffer, cr_errorMessage := ''Compression failed''\<rparr>
           | DeflateStreamEnd out \<Rightarrow>
               result\<lparr>cr_compressedSize := of_nat (length out), compressedData := out,
                      cr_success := True\<rparr>))"

subsection \<open>decompress\<close>






section \<open>VarcEntry\<close>

text \<open>
  The two time stamps of an entry are not part of the archive and are left out, and so
  is \<^verbatim>\<open>secureWipe\<close>, which overwrites a buffer that is about to be released.
\<close>

datatype EntryType = FILE | DIRECTORY | SYMLINK

record VarcEntry =
  m_relativePath :: string
  m_type :: EntryType
  m_originalSize :: "64 word"
  m_compressedSize :: "64 word"
  m_offset :: "64 word"
  m_fileType :: "32 word"
  m_flags :: "32 word"
  m_checksum :: bytes
  m_data :: bytes

text \<open>\<^verbatim>\<open>VarcEntry(path, data, type)\<close>\<close>

definition VarcEntry_of_data :: "prims \<Rightarrow> string \<Rightarrow> bytes \<Rightarrow> EntryType \<Rightarrow> VarcEntry" where
  "VarcEntry_of_data P path data type =
    \<lparr> m_relativePath = path, m_type = type,
      m_originalSize = of_nat (length data), m_compressedSize = of_nat (length data),
      m_offset = 0,
      m_fileType = (if data \<noteq> [] \<and> type = FILE then detect data else 0),
      m_flags = 0,
      m_checksum = sha256 P data,
      m_data = data \<rparr>"

text \<open>\<^verbatim>\<open>VarcEntry(path, type, originalSize, fileType)\<close>\<close>

definition VarcEntry_of_sizes :: "string \<Rightarrow> EntryType \<Rightarrow> 64 word \<Rightarrow> 32 word \<Rightarrow> VarcEntry" where
  "VarcEntry_of_sizes path type osize ftype =
    \<lparr> m_relativePath = path, m_type = type,
      m_originalSize = osize, m_compressedSize = osize,
      m_offset = 0, m_fileType = ftype, m_flags = 0,
      m_checksum = [], m_data = [] \<rparr>"

definition setCompressedSize :: "64 word \<Rightarrow> VarcEntry \<Rightarrow> VarcEntry" where
  "setCompressedSize n e = e\<lparr>m_compressedSize := n\<rparr>"

definition setFlags :: "32 word \<Rightarrow> VarcEntry \<Rightarrow> VarcEntry" where
  "setFlags f e = e\<lparr>m_flags := f\<rparr>"

definition setChecksum :: "bytes \<Rightarrow> VarcEntry \<Rightarrow> VarcEntry" where
  "setChecksum c e = e\<lparr>m_checksum := c\<rparr>"

definition setData :: "prims \<Rightarrow> bytes \<Rightarrow> VarcEntry \<Rightarrow> VarcEntry" where
  "setData P data e =
    e\<lparr> m_data := data,
       m_originalSize := of_nat (length data),
       m_compressedSize := of_nat (length data),
       m_checksum := sha256 P data,
       m_fileType := (if m_fileType e = 0 \<and> data \<noteq> [] then detect data else m_fileType e) \<rparr>"

definition isCompressed :: "VarcEntry \<Rightarrow> bool" where
  "isCompressed e = (m_flags e AND EntryFlags_COMPRESSED \<noteq> 0)"

definition isEncrypted :: "VarcEntry \<Rightarrow> bool" where
  "isEncrypted e = (m_flags e AND EntryFlags_ENCRYPTED \<noteq> 0)"

section \<open>Archive\<close>

record CreateOptions =
  opt_compress :: bool
  opt_compressionLevel :: int
  opt_encrypt :: bool
  opt_password :: string

definition CreateOptions_new :: CreateOptions where
  "CreateOptions_new =
    \<lparr> opt_compress = True, opt_compressionLevel = 6, opt_encrypt = False, opt_password = [] \<rparr>"

record Archive =
  m_filepath :: string
  m_header :: GlobalHeader
  m_entries :: "VarcEntry list"
  m_archiveData :: bytes
  m_modified :: bool
  m_loaded :: bool
  m_errorMessage :: string
  m_crypto :: CryptoEngine
  m_compression :: CompressionEngine

definition Archive_new :: Archive where
  "Archive_new =
    \<lparr> m_filepath = [], m_header = GlobalHeader_new, m_entries = [], m_archiveData = [],
      m_modified = False, m_loaded = False, m_errorMessage = [],
      m_crypto = CryptoEngine_new,
      m_compression = CompressionEngine_new CompressionLevel_DEFAULT \<rparr>"

definition isOpen :: "Archive \<Rightarrow> bool" where
  "isOpen a = m_loaded a"

subsection \<open>Writing\<close>

definition updateHeader :: "Archive \<Rightarrow> Archive" where
  "updateHeader a =
    a\<lparr> m_header :=
         (m_header a)
           \<lparr> fileCount := of_nat (length (m_entries a)),
             flags := (if m_entries a = []
                       then (flags (m_header a) AND NOT ArchiveFlags_ENCRYPTED)
                              AND NOT ArchiveFlags_COMPRESSED
                       else flags (m_header a)) \<rparr> \<rparr>"

text \<open>\<^verbatim>\<open>v.resize(n)\<close> and \<^verbatim>\<open>v.resize(n, 0)\<close>: keep what fits, fill with zero bytes.\<close>

definition vector_resize :: "bytes \<Rightarrow> nat \<Rightarrow> bytes" where
  "vector_resize v n = take n v @ replicate (n - length v) 0"

text \<open>
  \<^verbatim>\<open>memcpy(dest.data() + offset, src.data(), n)\<close>. Copying more than the source holds,
  or past the end of the destination, is undefined.
\<close>

definition memcpy_into :: "bytes \<Rightarrow> nat \<Rightarrow> bytes \<Rightarrow> nat \<Rightarrow> abort + bytes" where
  "memcpy_into dest offset src n =
    (if length src < n then Inl (Undefined ''memcpy reads past the end of its source'')
     else if length dest < offset + n then Inl (Undefined ''memcpy writes past the end of the buffer'')
     else Inr (take offset dest @ take n src @ drop (offset + n) dest))"

text \<open>The same copy into a \<^verbatim>\<open>std::array\<close> member of the header.\<close>

definition array_memcpy :: "bytes \<Rightarrow> bytes \<Rightarrow> nat \<Rightarrow> bytes" where
  "array_memcpy dest src n = take n src @ drop n dest"

definition entry_pathLength :: "VarcEntry \<Rightarrow> nat" where
  "entry_pathLength entry = length (m_relativePath entry) mod 2 ^ 32"

definition totalSize_of :: "VarcEntry list \<Rightarrow> nat" where
  "totalSize_of entries =
     foldl (\<lambda>totalSize entry.
              size_t_add (size_t_add (size_t_add (size_t_add totalSize EntryHeader_fixedSize)
                 (entry_pathLength entry)) (unat (m_compressedSize entry))) 32)
       64 entries"

definition entryHeader_of :: "VarcEntry \<Rightarrow> EntryHeader" where
  "entryHeader_of entry =
    \<lparr> pathLength = of_nat (entry_pathLength entry),
      originalSize = m_originalSize entry,
      compressedSize = m_compressedSize entry,
      fileType = m_fileType entry,
      entryFlags = m_flags entry \<rparr>"

fun write_entries :: "VarcEntry list \<Rightarrow> bytes \<Rightarrow> nat \<Rightarrow> abort + bytes" where
  "write_entries [] buf offset = Inr buf"
| "write_entries (entry # rest) buf offset =
    (let entryHeaderData = EntryHeader_serialize (entryHeader_of entry);
         offset1 = offset + length entryHeaderData;
         offset2 = offset1 + entry_pathLength entry;
         offset3 = offset2 + length (m_data entry)
     in case memcpy_into buf offset entryHeaderData (length entryHeaderData) of
          Inl e \<Rightarrow> Inl e
        | Inr buf1 \<Rightarrow>
       (case memcpy_into buf1 offset1 (bytes_of_string (m_relativePath entry))
               (entry_pathLength entry) of
          Inl e \<Rightarrow> Inl e
        | Inr buf2 \<Rightarrow>
       (case memcpy_into buf2 offset2 (m_data entry) (length (m_data entry)) of
          Inl e \<Rightarrow> Inl e
        | Inr buf3 \<Rightarrow>
       (case memcpy_into buf3 offset3 (m_checksum entry) 32 of
          Inl e \<Rightarrow> Inl e
        | Inr buf4 \<Rightarrow> write_entries rest buf4 (offset3 + 32)))))"

definition writeArchive :: "Archive \<Rightarrow> abort + bool \<times> Archive" where
  "writeArchive a =
    (let a1 = updateHeader a;
         buf0 = vector_resize (m_archiveData a1) (totalSize_of (m_entries a1));
         headerData = GlobalHeader_serialize (m_header a1);
         headerData' = (if length headerData < 64 then vector_resize headerData 64 else headerData)
     in case memcpy_into buf0 0 headerData' 64 of
          Inl e \<Rightarrow> Inl e
        | Inr buf1 \<Rightarrow>
            (case write_entries (m_entries a1) buf1 64 of
               Inl e \<Rightarrow> Inl e
             | Inr buf \<Rightarrow> Inr (True, a1\<lparr>m_archiveData := buf\<rparr>)))"

definition save :: "Archive \<Rightarrow> machine \<Rightarrow> string \<Rightarrow> abort + bool \<times> Archive \<times> machine" where
  "save a m filepath =
    (let outputPath = (if filepath = [] then m_filepath a else filepath)
     in if outputPath = []
        then Inr (False, a\<lparr>m_errorMessage := ''No output path specified''\<rparr>, m)
        else
          (case writeArchive a of
             Inl e \<Rightarrow> Inl e
           | Inr (ok, a1) \<Rightarrow>
               if \<not> ok then Inr (False, a1, m)
               else if \<not> creatable m outputPath
               then Inr (False,
                         a1\<lparr>m_errorMessage := ''Cannot create archive file: '' @ outputPath\<rparr>, m)
               else Inr (True, a1\<lparr>m_filepath := outputPath, m_modified := False\<rparr>,
                         m\<lparr>files := (files m)(outputPath \<mapsto> m_archiveData a1)\<rparr>)))"

text \<open>\<^verbatim>\<open>close\<close> saves a modified archive first and ignores whether that worked.\<close>

definition close :: "Archive \<Rightarrow> machine \<Rightarrow> abort + Archive \<times> machine" where
  "close a m =
    (case (if m_modified a then save a m [] else Inr (True, a, m)) of
       Inl e \<Rightarrow> Inl e
     | Inr (ok, a1, m1) \<Rightarrow>
         Inr (a1\<lparr> m_filepath := [], m_entries := [], m_archiveData := [],
                  m_header := GlobalHeader_new, m_modified := False, m_loaded := False,
                  m_errorMessage := [] \<rparr>, m1))"

definition create :: "Archive \<Rightarrow> machine \<Rightarrow> string \<Rightarrow> abort + bool \<times> Archive \<times> machine" where
  "create a m filepath =
    (case close a m of
       Inl e \<Rightarrow> Inl e
     | Inr (a1, m1) \<Rightarrow>
         Inr (True,
              a1\<lparr> m_filepath := filepath, m_header := GlobalHeader_new, m_entries := [],
                  m_modified := True, m_loaded := True \<rparr>, m1))"

subsection \<open>Reading\<close>

definition what :: "abort \<Rightarrow> string" where
  "what e = (case e of Throw msg \<Rightarrow> msg | Undefined msg \<Rightarrow> msg | Diverges \<Rightarrow> [])"

text \<open>
  The entry loop of \<^verbatim>\<open>readArchive\<close>, \<open>n\<close> entries still to read. It yields the entries
  read so far and the error message if it stopped early. \<^verbatim>\<open>offset + dataSize\<close> is
  computed in 64 bits with a size taken from the file: when the sum wraps, the test
  passes and the range that is then copied does not lie in the buffer.
\<close>

fun read_entries ::
  "prims \<Rightarrow> bytes \<Rightarrow> nat \<Rightarrow> nat \<Rightarrow> VarcEntry list \<Rightarrow> abort + string option \<times> VarcEntry list" where
  "read_entries P data 0 offset entries = Inr (None, entries)"
| "read_entries P data (Suc n) offset entries =
    (if length data < offset + EntryHeader_fixedSize
     then Inr (Some ''Unexpected end of archive'', entries)
     else
       let entryHeaderData = subvec data offset EntryHeader_fixedSize;
           offset1 = offset + EntryHeader_fixedSize;
           (ok, entryHeader) = EntryHeader_deserialize EntryHeader_new entryHeaderData
       in if \<not> ok then Inr (Some ''Invalid entry header'', entries)
          else if length data < offset1 + unat (pathLength entryHeader)
          then Inr (Some ''Unexpected end of archive (path)'', entries)
          else
            let path = string_of_bytes (subvec data offset1 (unat (pathLength entryHeader)));
                offset2 = offset1 + unat (pathLength entryHeader);
                dataSize = unat (compressedSize entryHeader)
            in if length data < size_t_add offset2 dataSize
               then Inr (Some ''Unexpected end of archive (data)'', entries)
               else if length data < offset2 + dataSize
               then Inl (Undefined ''the range of the entry data ends before it starts'')
               else
                 let dat = subvec data offset2 dataSize;
                     offset3 = offset2 + dataSize
                 in if length data < offset3 + 32
                    then Inr (Some ''Unexpected end of archive (checksum)'', entries)
                    else
                      let checksum = subvec data offset3 32;
                          entry0 = VarcEntry_of_sizes path FILE (originalSize entryHeader)
                                     (fileType entryHeader);
                          entry1 = setCompressedSize (compressedSize entryHeader) entry0;
                          entry2 = setFlags (entryFlags entryHeader) entry1;
                          entry3 = setChecksum checksum entry2;
                          entry4 = setData P dat entry3
                      in read_entries P data n (offset3 + 32) (entries @ [entry4]))"

definition readArchive ::
  "prims \<Rightarrow> Archive \<Rightarrow> machine \<Rightarrow> string \<Rightarrow> abort + bool \<times> Archive \<times> machine" where
  "readArchive P a m password =
    (if length (m_archiveData a) < 64
     then Inr (False, a\<lparr>m_errorMessage := ''Archive file too small''\<rparr>, m)
     else
       let headerData = subvec (m_archiveData a) 0 64;
           (ok, h) = GlobalHeader_deserialize (behind_buffer m) (m_header a) headerData;
           a1 = a\<lparr>m_header := h\<rparr>
       in if \<not> ok then Inr (False, a1\<lparr>m_errorMessage := ''Invalid archive header''\<rparr>, m)
          else if \<not> GlobalHeader_isValid h
          then Inr (False, a1\<lparr>m_errorMessage := ''Invalid archive signature''\<rparr>, m)
          else if GlobalHeader_isEncrypted h \<and> password = []
          then Inr (False,
                    a1\<lparr>m_errorMessage := ''Password required for encrypted archive''\<rparr>, m)
          else
            (case (if GlobalHeader_isEncrypted h
                   then initializeFromPassword P password (salt h) (m_crypto a1) (entropy m)
                   else Inr (m_crypto a1, entropy m)) of
               Inl (e, c, ent) \<Rightarrow>
                 Inr (False,
                      a1\<lparr> m_crypto := c,
                          m_errorMessage := ''Failed to initialize encryption: '' @ what e \<rparr>,
                      m\<lparr>entropy := ent\<rparr>)
             | Inr (c, ent) \<Rightarrow>
                 (case read_entries P (m_archiveData a1) (unat (fileCount h)) 64 [] of
                    Inl e \<Rightarrow> Inl e
                  | Inr (Some msg, entries) \<Rightarrow>
                      Inr (False,
                           a1\<lparr>m_crypto := c, m_entries := entries, m_errorMessage := msg\<rparr>,
                           m\<lparr>entropy := ent\<rparr>)
                  | Inr (None, entries) \<Rightarrow>
                      Inr (True, a1\<lparr>m_crypto := c, m_entries := entries\<rparr>,
                           m\<lparr>entropy := ent\<rparr>))))"

text \<open>\<^verbatim>\<open>Archive::open\<close>; the name \<open>open\<close> is taken in Isabelle.\<close>

definition open_archive ::
  "prims \<Rightarrow> Archive \<Rightarrow> machine \<Rightarrow> string \<Rightarrow> string \<Rightarrow> abort + bool \<times> Archive \<times> machine" where
  "open_archive P a m filepath password =
    (case close a m of
       Inl e \<Rightarrow> Inl e
     | Inr (a1, m1) \<Rightarrow>
         let a2 = a1\<lparr>m_filepath := filepath, m_archiveData := []\<rparr>
         in (case files m1 filepath of
               None \<Rightarrow>
                 Inr (False, a2\<lparr>m_errorMessage := ''Cannot open archive file: '' @ filepath\<rparr>, m1)
             | Some content \<Rightarrow>
                 (case readArchive P (a2\<lparr>m_archiveData := content\<rparr>) m1 password of
                    Inl e \<Rightarrow> Inl e
                  | Inr (ok, a3, m3) \<Rightarrow>
                      if \<not> ok then Inr (False, a3, m3)
                      else Inr (True, a3\<lparr>m_loaded := True, m_modified := False\<rparr>, m3))))"

subsection \<open>Adding entries\<close>

text \<open>
  \<^verbatim>\<open>processEntry\<close>, in the two blocks of the source. The exceptions of the crypto
  engine are not caught there and leave the call.
\<close>

definition processEntry_encrypt ::
  "prims \<Rightarrow> VarcEntry \<Rightarrow> CreateOptions \<Rightarrow> Archive \<Rightarrow> machine
     \<Rightarrow> abort + VarcEntry \<times> Archive \<times> machine" where
  "processEntry_encrypt P entry options a m =
    (let data = m_data entry in
     if opt_encrypt options \<and> opt_password options \<noteq> [] then
       (case
          (if \<not> isInitialized (m_crypto a) then
             (case generateSalt SALT_SIZE (entropy m) of
                Inl e \<Rightarrow> Inl e
              | Inr (slt, ent1) \<Rightarrow>
             (case initializeFromPassword P (opt_password options) slt (m_crypto a) ent1 of
                Inl (e, c, ent) \<Rightarrow> Inl e
              | Inr (c, ent2) \<Rightarrow>
             (case generateIV ent2 of
                Inl e \<Rightarrow> Inl e
              | Inr (v, ent3) \<Rightarrow>
                  Inr (a\<lparr> m_crypto := c,
                          m_header := (m_header a)
                            \<lparr> salt := array_memcpy (salt (m_header a)) slt (length slt),
                              iv := array_memcpy (iv (m_header a)) v 16,
                              flags := flags (m_header a) OR ArchiveFlags_ENCRYPTED \<rparr> \<rparr>,
                       m\<lparr>entropy := ent3\<rparr>))))
           else Inr (a, m)) of
          Inl e \<Rightarrow> Inl e
        | Inr (a1, m1) \<Rightarrow>
            (case encrypt P (m_crypto a1) data of
               Inl e \<Rightarrow> Inl e
             | Inr encrypted \<Rightarrow>
                 let entry1 = setData P encrypted entry
                 in Inr (setFlags (m_flags entry1 OR EntryFlags_ENCRYPTED) entry1, a1, m1)))
     else Inr (entry, a, m))"

definition processEntry_compress :: "prims \<Rightarrow> VarcEntry \<Rightarrow> CreateOptions \<Rightarrow> Archive \<Rightarrow> VarcEntry" where
  "processEntry_compress P entry options a =
    (if opt_compress options then
       (let result = compress P (m_compression a) (m_data entry)
        in if cr_success result then
             (let e1 = setData P (compressedData result) entry;
                  e2 = setCompressedSize (cr_compressedSize result) e1
              in setFlags (m_flags e2 OR EntryFlags_COMPRESSED) e2)
           else entry)
     else entry)"

definition processEntry ::
  "prims \<Rightarrow> VarcEntry \<Rightarrow> CreateOptions \<Rightarrow> Archive \<Rightarrow> machine
     \<Rightarrow> abort + bool \<times> Archive \<times> machine" where
  "processEntry P entry options a m =
    (case processEntry_encrypt P entry options a m of
       Inl e \<Rightarrow> Inl e
     | Inr (entry2, a2, m2) \<Rightarrow>
         Inr (True,
              a2\<lparr> m_entries := m_entries a2 @ [processEntry_compress P entry2 options a2],
                  m_modified := True \<rparr>,
              m2))"

definition addVirtualFile ::
  "prims \<Rightarrow> string \<Rightarrow> bytes \<Rightarrow> CreateOptions \<Rightarrow> Archive \<Rightarrow> machine
     \<Rightarrow> abort + bool \<times> Archive \<times> machine" where
  "addVirtualFile P virtualPath data options a m =
    (if \<not> isOpen a then Inr (False, a\<lparr>m_errorMessage := ''Archive not open''\<rparr>, m)
     else processEntry P (VarcEntry_of_data P virtualPath data FILE) options a m)"

definition addEntry ::
  "prims \<Rightarrow> VarcEntry \<Rightarrow> CreateOptions \<Rightarrow> Archive \<Rightarrow> machine
     \<Rightarrow> abort + bool \<times> Archive \<times> machine" where
  "addEntry P entry options a m =
    (if \<not> isOpen a then Inr (False, a\<lparr>m_errorMessage := ''Archive not open''\<rparr>, m)
     else processEntry P entry options a m)"

definition createEntryFromPath :: "prims \<Rightarrow> machine \<Rightarrow> string \<Rightarrow> abort + VarcEntry" where
  "createEntryFromPath P m filepath =
    (case files m filepath of
       None \<Rightarrow> Inl (Throw (''Cannot open file: '' @ filepath))
     | Some data \<Rightarrow> Inr (VarcEntry_of_data P filepath data FILE))"

definition addFile ::
  "prims \<Rightarrow> string \<Rightarrow> CreateOptions \<Rightarrow> Archive \<Rightarrow> machine
     \<Rightarrow> abort + bool \<times> Archive \<times> machine" where
  "addFile P filepath options a m =
    (if \<not> isOpen a then Inr (False, a\<lparr>m_errorMessage := ''Archive not open''\<rparr>, m)
     else
       (case createEntryFromPath P m filepath of
          Inl e \<Rightarrow> Inl e
        | Inr entry \<Rightarrow> processEntry P entry options a m))"

subsection \<open>Finding and removing entries\<close>

definition findEntry :: "Archive \<Rightarrow> string \<Rightarrow> VarcEntry option" where
  "findEntry a path = find (\<lambda>entry. m_relativePath entry = path) (m_entries a)"

definition entryExists :: "Archive \<Rightarrow> string \<Rightarrow> bool" where
  "entryExists a path = (findEntry a path \<noteq> None)"

text \<open>
  \<^verbatim>\<open>std::string::npos\<close>, \<^verbatim>\<open>find\<close> for a character and for a string from a start
  position, and \<^verbatim>\<open>substr(pos, count)\<close> for a \<open>pos\<close> inside the string (the only use).
\<close>

definition npos :: nat where "npos = SIZE_MAX"

definition string_find_char :: "string \<Rightarrow> char \<Rightarrow> nat \<Rightarrow> nat" where
  "string_find_char s c pos =
    (case find (\<lambda>k. s ! k = c) [pos..<length s] of None \<Rightarrow> npos | Some k \<Rightarrow> k)"

definition string_find :: "string \<Rightarrow> string \<Rightarrow> nat \<Rightarrow> nat" where
  "string_find s seg pos =
    (if length s < length seg then npos
     else
       (case find (\<lambda>k. take (length seg) (drop k s) = seg) [pos..<Suc (length s - length seg)] of
          None \<Rightarrow> npos
        | Some k \<Rightarrow> k))"

definition string_substr :: "string \<Rightarrow> nat \<Rightarrow> nat \<Rightarrow> string" where
  "string_substr s pos count = take count (drop pos s)"

text \<open>
  The lambda \<^verbatim>\<open>matchesPattern\<close>, written out twice in the source (in
  \<^verbatim>\<open>removeEntries\<close> and in \<^verbatim>\<open>findEntries\<close>) with the same body. \<open>i\<close> and \<open>j\<close>
  are \<^verbatim>\<open>size_t\<close>; after a \<^verbatim>\<open>*\<close> that is followed by no other, \<open>j\<close> becomes
  \<open>npos\<close>.
\<close>

partial_function (option) matchesPattern_loop :: "string \<Rightarrow> string \<Rightarrow> nat \<Rightarrow> nat \<Rightarrow> bool option"
where
  "matchesPattern_loop str pattern i j =
    (if i < length str \<and> j < length pattern then
       (if pattern ! j = CHR ''*'' then
          (if j + 1 < length pattern then
             (let next = string_find_char pattern (CHR ''*'') (j + 1);
                  segment = string_substr pattern (j + 1) (size_t_sub (size_t_sub next j) 1);
                  pos = string_find str segment i
              in if pos = npos then Some False
                 else matchesPattern_loop str pattern (pos + length segment) next)
           else Some True)
        else if pattern ! j = CHR ''?'' \<or> pattern ! j = str ! i
        then matchesPattern_loop str pattern (i + 1) (j + 1)
        else Some False)
     else Some (i = length str \<and> j = length pattern))"

definition matchesPattern :: "string \<Rightarrow> string \<Rightarrow> bool option" where
  "matchesPattern str pattern = matchesPattern_loop str pattern 0 0"

text \<open>The loop over the entries, for \<^verbatim>\<open>findEntries\<close>: the entries that match, in order.\<close>

fun matching_entries :: "VarcEntry list \<Rightarrow> string \<Rightarrow> VarcEntry list option" where
  "matching_entries [] pattern = Some []"
| "matching_entries (entry # rest) pattern =
    (case matchesPattern (m_relativePath entry) pattern of
       None \<Rightarrow> None
     | Some matches \<Rightarrow>
         (case matching_entries rest pattern of
            None \<Rightarrow> None
          | Some results \<Rightarrow> Some (if matches then entry # results else results)))"

definition findEntries :: "Archive \<Rightarrow> string \<Rightarrow> abort + VarcEntry list" where
  "findEntries a pattern =
    (case matching_entries (m_entries a) pattern of
       None \<Rightarrow> Inl Diverges
     | Some results \<Rightarrow> Inr results)"

text \<open>\<^verbatim>\<open>std::remove_if\<close> with the same predicate: the entries that stay, and the count.\<close>

fun remaining_entries :: "VarcEntry list \<Rightarrow> string \<Rightarrow> (VarcEntry list \<times> nat) option" where
  "remaining_entries [] pattern = Some ([], 0)"
| "remaining_entries (entry # rest) pattern =
    (case matchesPattern (m_relativePath entry) pattern of
       None \<Rightarrow> None
     | Some matches \<Rightarrow>
         (case remaining_entries rest pattern of
            None \<Rightarrow> None
          | Some (kept, count) \<Rightarrow>
              Some (if matches then (kept, Suc count) else (entry # kept, count))))"

definition removeEntries :: "Archive \<Rightarrow> string \<Rightarrow> abort + 64 word \<times> Archive" where
  "removeEntries a pattern =
    (case remaining_entries (m_entries a) pattern of
       None \<Rightarrow> Inl Diverges
     | Some (kept, count) \<Rightarrow>
         Inr (of_nat count,
              a\<lparr>m_entries := kept, m_modified := (if 0 < count then True else m_modified a)\<rparr>))"

fun erase_first :: "('a \<Rightarrow> bool) \<Rightarrow> 'a list \<Rightarrow> 'a list" where
  "erase_first p [] = []"
| "erase_first p (x # xs) = (if p x then xs else x # erase_first p xs)"

definition removeEntry :: "Archive \<Rightarrow> string \<Rightarrow> bool \<times> Archive" where
  "removeEntry a path =
    (case findEntry a path of
       None \<Rightarrow> (False, a\<lparr>m_errorMessage := ''Entry not found: '' @ path\<rparr>)
     | Some entry \<Rightarrow>
         (True, a\<lparr> m_entries := erase_first (\<lambda>e. m_relativePath e = path) (m_entries a),
                   m_modified := True \<rparr>))"

definition clearEntries :: "Archive \<Rightarrow> Archive" where
  "clearEntries a = a\<lparr>m_entries := [], m_modified := True\<rparr>"

subsection \<open>Extraction and verification\<close>

text \<open>
  \<^verbatim>\<open>extractFile\<close> writes the entry's data to the output file. The file store is flat:
  creating the parent directories is taken to succeed.
\<close>

definition extractFile ::
  "Archive \<Rightarrow> machine \<Rightarrow> string \<Rightarrow> string \<Rightarrow> string \<Rightarrow> bool \<times> Archive \<times> machine" where
  "extractFile a m path outputPath password =
    (case findEntry a path of
       None \<Rightarrow> (False, a\<lparr>m_errorMessage := ''Entry not found: '' @ path\<rparr>, m)
     | Some entry \<Rightarrow>
         let data = m_data entry
         in if data = [] \<and> 0 < m_originalSize entry
            then (False, a\<lparr>m_errorMessage := ''Empty entry data: '' @ path\<rparr>, m)
            else if \<not> creatable m outputPath
            then (False, a\<lparr>m_errorMessage := ''Cannot create output file: '' @ outputPath\<rparr>, m)
            else (True, a, m\<lparr>files := (files m)(outputPath \<mapsto> data)\<rparr>))"

definition getEntryData :: "Archive \<Rightarrow> string \<Rightarrow> bytes" where
  "getEntryData a path = (case findEntry a path of None \<Rightarrow> [] | Some entry \<Rightarrow> m_data entry)"

definition verifyEntry :: "Archive \<Rightarrow> string \<Rightarrow> string \<Rightarrow> bool \<times> Archive" where
  "verifyEntry a path password =
    (case findEntry a path of
       None \<Rightarrow> (False, a\<lparr>m_errorMessage := ''Entry not found: '' @ path\<rparr>)
     | Some entry \<Rightarrow> (True, a))"

fun verify_entries :: "Archive \<Rightarrow> VarcEntry list \<Rightarrow> string \<Rightarrow> bool \<times> Archive" where
  "verify_entries a [] password = (True, a)"
| "verify_entries a (entry # rest) password =
    (case verifyEntry a (m_relativePath entry) password of
       (ok, a1) \<Rightarrow> if \<not> ok then (False, a1) else verify_entries a1 rest password)"

definition verify ::
  "prims \<Rightarrow> Archive \<Rightarrow> machine \<Rightarrow> string \<Rightarrow> abort + bool \<times> Archive \<times> machine" where
  "verify P a m password =
    (if \<not> GlobalHeader_isValid (m_header a)
     then Inr (False, a\<lparr>m_errorMessage := ''Invalid archive header''\<rparr>, m)
     else if GlobalHeader_isEncrypted (m_header a) \<and> password = []
     then Inr (False, a\<lparr>m_errorMessage := ''Password required for encrypted archive''\<rparr>, m)
     else
       (case (if GlobalHeader_isEncrypted (m_header a)
              then initializeFromPassword P password (salt (m_header a)) (m_crypto a) (entropy m)
              else Inr (m_crypto a, entropy m)) of
          Inl (e, c, ent) \<Rightarrow> Inl e
        | Inr (c, ent) \<Rightarrow>
            (case verify_entries (a\<lparr>m_crypto := c\<rparr>) (m_entries a) password of
               (ok, a1) \<Rightarrow> Inr (ok, a1, m\<lparr>entropy := ent\<rparr>))))"

subsection \<open>Passwords\<close>

definition lock :: "prims \<Rightarrow> Archive \<Rightarrow> machine \<Rightarrow> string \<Rightarrow> abort + bool \<times> Archive \<times> machine" where
  "lock P a m password =
    (if password = [] then Inr (False, a\<lparr>m_errorMessage := ''Password cannot be empty''\<rparr>, m)
     else
       (case generateSalt SALT_SIZE (entropy m) of
          Inl e \<Rightarrow> Inl e
        | Inr (slt, ent1) \<Rightarrow>
       (case generateIV ent1 of
          Inl e \<Rightarrow> Inl e
        | Inr (v, ent2) \<Rightarrow>
       (case initializeFromPassword P password slt (m_crypto a) ent2 of
          Inl (e, c, ent) \<Rightarrow> Inl e
        | Inr (c, ent3) \<Rightarrow>
            Inr (True,
                 a\<lparr> m_header := (m_header a)
                       \<lparr> salt := array_memcpy (salt (m_header a)) slt (length slt),
                         iv := array_memcpy (iv (m_header a)) v (length v),
                         flags := flags (m_header a) OR ArchiveFlags_ENCRYPTED \<rparr>,
                     m_crypto := c,
                     m_entries := map (\<lambda>entry. setFlags (m_flags entry OR EntryFlags_ENCRYPTED) entry)
                                    (m_entries a),
                     m_modified := True \<rparr>,
                 m\<lparr>entropy := ent3\<rparr>)))))"

text \<open>\<^verbatim>\<open>unlock\<close> catches what \<^verbatim>\<open>initializeFromPassword\<close> throws.\<close>

definition unlock :: "prims \<Rightarrow> Archive \<Rightarrow> machine \<Rightarrow> string \<Rightarrow> bool \<times> Archive \<times> machine" where
  "unlock P a m password =
    (if \<not> GlobalHeader_isEncrypted (m_header a)
     then (False, a\<lparr>m_errorMessage := ''Archive is not encrypted''\<rparr>, m)
     else
       (case initializeFromPassword P password (salt (m_header a)) (m_crypto a) (entropy m) of
          Inl (e, c, ent) \<Rightarrow>
            (False,
             a\<lparr>m_crypto := c, m_errorMessage := ''Incorrect password or decryption failed''\<rparr>,
             m\<lparr>entropy := ent\<rparr>)
        | Inr (c, ent) \<Rightarrow>
            (True,
             a\<lparr> m_crypto := c,
                 m_header := (m_header a)
                   \<lparr>flags := flags (m_header a) AND NOT ArchiveFlags_ENCRYPTED\<rparr>,
                 m_entries := map (\<lambda>entry. setFlags (m_flags entry AND NOT EntryFlags_ENCRYPTED) entry)
                                (m_entries a),
                 m_modified := True \<rparr>,
             m\<lparr>entropy := ent\<rparr>)))"

definition changePassword ::
  "prims \<Rightarrow> Archive \<Rightarrow> machine \<Rightarrow> string \<Rightarrow> string \<Rightarrow> abort + bool \<times> Archive \<times> machine" where
  "changePassword P a m oldPassword newPassword =
    (if \<not> GlobalHeader_isEncrypted (m_header a)
     then Inr (False, a\<lparr>m_errorMessage := ''Archive is not encrypted''\<rparr>, m)
     else
       (case deriveKey P oldPassword (salt (m_header a)) PBKDF2_ITERATIONS AES_KEY_SIZE of
          Inl e \<Rightarrow> Inl e
        | Inr oldKey \<Rightarrow>
       (case generateSalt SALT_SIZE (entropy m) of
          Inl e \<Rightarrow> Inl e
        | Inr (newSalt, ent1) \<Rightarrow>
       (case generateIV ent1 of
          Inl e \<Rightarrow> Inl e
        | Inr (newIV, ent2) \<Rightarrow>
       (case initializeFromPassword P newPassword newSalt (m_crypto a) ent2 of
          Inl (e, c, ent) \<Rightarrow> Inl e
        | Inr (c, ent3) \<Rightarrow>
            Inr (True,
                 a\<lparr> m_header := (m_header a)
                       \<lparr> salt := array_memcpy (salt (m_header a)) newSalt (length newSalt),
                         iv := array_memcpy (iv (m_header a)) newIV (length newIV) \<rparr>,
                     m_crypto := c, m_modified := True \<rparr>,
                 m\<lparr>entropy := ent3\<rparr>))))))"

subsection \<open>Sequences of calls\<close>

text \<open>
  The adding and removing calls as values, to speak about every sequence of them. A call
  that returns false leaves the archive as the source leaves it and the sequence goes on.
\<close>

datatype archive_op =
    AddVirtual string bytes CreateOptions
  | AddFile string CreateOptions
  | RemoveEntry string
  | RemoveEntries string
  | ClearEntries

fun apply_op :: "prims \<Rightarrow> archive_op \<Rightarrow> Archive \<Rightarrow> machine \<Rightarrow> abort + Archive \<times> machine" where
  "apply_op P (AddVirtual path data options) a m =
     (case addVirtualFile P path data options a m of
        Inl e \<Rightarrow> Inl e
      | Inr (ok, a', m') \<Rightarrow> Inr (a', m'))"
| "apply_op P (AddFile filepath options) a m =
     (case addFile P filepath options a m of
        Inl e \<Rightarrow> Inl e
      | Inr (ok, a', m') \<Rightarrow> Inr (a', m'))"
| "apply_op P (RemoveEntry path) a m = Inr (snd (removeEntry a path), m)"
| "apply_op P (RemoveEntries pattern) a m =
     (case removeEntries a pattern of
        Inl e \<Rightarrow> Inl e
      | Inr (count, a') \<Rightarrow> Inr (a', m))"
| "apply_op P ClearEntries a m = Inr (clearEntries a, m)"

fun apply_ops :: "prims \<Rightarrow> archive_op list \<Rightarrow> Archive \<Rightarrow> machine \<Rightarrow> abort + Archive \<times> machine" where
  "apply_ops P [] a m = Inr (a, m)"
| "apply_ops P (op # ops) a m =
     (case apply_op P op a m of
        Inl e \<Rightarrow> Inl e
      | Inr (a', m') \<Rightarrow> apply_ops P ops a' m')"

text \<open>
  The scenario of the round trip: on a fresh archive object \<^verbatim>\<open>create(f)\<close>,
  \<^verbatim>\<open>addVirtualFile(path, data, options)\<close>, \<^verbatim>\<open>save()\<close>, \<^verbatim>\<open>open(f, password)\<close> and
  \<^verbatim>\<open>extractFile(path, out, password)\<close>. The result is the content of the extracted file
  when all five calls returned true.
\<close>

definition create_add_save ::
  "prims \<Rightarrow> machine \<Rightarrow> string \<Rightarrow> string \<Rightarrow> bytes \<Rightarrow> CreateOptions
     \<Rightarrow> abort + bool \<times> Archive \<times> machine" where
  "create_add_save P m f path data options =
    (case create Archive_new m f of
       Inl e \<Rightarrow> Inl e
     | Inr (ok1, a1, m1) \<Rightarrow>
         if \<not> ok1 then Inr (False, a1, m1)
         else
           (case addVirtualFile P path data options a1 m1 of
              Inl e \<Rightarrow> Inl e
            | Inr (ok2, a2, m2) \<Rightarrow>
                if \<not> ok2 then Inr (False, a2, m2) else save a2 m2 []))"

definition round_trip ::
  "prims \<Rightarrow> machine \<Rightarrow> string \<Rightarrow> string \<Rightarrow> bytes \<Rightarrow> CreateOptions \<Rightarrow> string \<Rightarrow> string
     \<Rightarrow> abort + bytes option" where
  "round_trip P m f path data options password out =
    (case create_add_save P m f path data options of
       Inl e \<Rightarrow> Inl e
     | Inr (ok3, a3, m3) \<Rightarrow>
         if \<not> ok3 then Inr None
         else
           (case open_archive P a3 m3 f password of
              Inl e \<Rightarrow> Inl e
            | Inr (ok4, a4, m4) \<Rightarrow>
                if \<not> ok4 then Inr None
                else
                  (case extractFile a4 m4 path out password of
                     (ok5, a5, m5) \<Rightarrow> if \<not> ok5 then Inr None else Inr (files m5 out))))"

section \<open>What an archive file holds\<close>

text \<open>
  The bytes of one entry in the file, and the entry that \<^verbatim>\<open>readArchive\<close> builds from
  them: it is made with the constructor that takes sizes, receives the size, flags and
  checksum of the file, and then its data through \<^verbatim>\<open>setData\<close>.
\<close>

definition entry_record :: "VarcEntry \<Rightarrow> bytes" where
  "entry_record entry =
     EntryHeader_serialize (entryHeader_of entry)
     @ bytes_of_string (m_relativePath entry) @ m_data entry @ m_checksum entry"

definition reloaded :: "prims \<Rightarrow> VarcEntry \<Rightarrow> VarcEntry" where
  "reloaded P entry =
     setData P (m_data entry)
       (setChecksum (m_checksum entry)
         (setFlags (m_flags entry)
           (setCompressedSize (m_compressedSize entry)
             (VarcEntry_of_sizes (m_relativePath entry) FILE (m_originalSize entry)
                (m_fileType entry)))))"

text \<open>
  An entry whose recorded size is that of its data and whose checksum has 32 bytes, as
  the constructor from content, \<^verbatim>\<open>setData\<close> and \<^verbatim>\<open>processEntry\<close> leave it; and one
  that in addition fits the file format.
\<close>

definition stored_ok :: "VarcEntry \<Rightarrow> bool" where
  "stored_ok entry =
     (m_compressedSize entry = of_nat (length (m_data entry))
      \<and> length (m_checksum entry) = CHECKSUM_SIZE)"

definition wf_entry :: "VarcEntry \<Rightarrow> bool" where
  "wf_entry entry =
     (length (m_relativePath entry) \<le> MAX_PATH_LENGTH
      \<and> unat (m_compressedSize entry) = length (m_data entry)
      \<and> length (m_checksum entry) = CHECKSUM_SIZE)"

text \<open>
  What \<^verbatim>\<open>writeArchive\<close> needs of an entry to lay it out as it computed the size: the
  stored size is that of the data, the checksum has 32 bytes, and the length of the path,
  which it handles in 32 bits, is below \<open>2\<^sup>3\<^sup>2\<close>.
\<close>

definition writable_entry :: "VarcEntry \<Rightarrow> bool" where
  "writable_entry entry =
     (length (m_relativePath entry) < 2 ^ 32
      \<and> unat (m_compressedSize entry) = length (m_data entry)
      \<and> length (m_checksum entry) = CHECKSUM_SIZE)"

definition wf_header :: "GlobalHeader \<Rightarrow> bool" where
  "wf_header h =
     (signature h = VARC_SIGNATURE \<and> length (salt h) = SALT_SIZE \<and> length (iv h) = IV_SIZE)"

text \<open>A buffer with the bytes \<open>xs\<close> written over it from \<open>offset\<close> on.\<close>

definition patch :: "bytes \<Rightarrow> nat \<Rightarrow> bytes \<Rightarrow> bytes" where
  "patch buf offset xs = take offset buf @ xs @ drop (offset + length xs) buf"

text \<open>What every adding and removing call keeps true of an open archive with the path \<open>f\<close>.\<close>

definition archive_ok :: "string \<Rightarrow> Archive \<Rightarrow> bool" where
  "archive_ok f a =
     (list_all stored_ok (m_entries a) \<and> wf_header (m_header a)
      \<and> m_filepath a = f \<and> m_loaded a)"

definition paths_fit :: "VarcEntry list \<Rightarrow> bool" where
  "paths_fit entries = list_all (\<lambda>entry. length (m_relativePath entry) \<le> MAX_PATH_LENGTH) entries"

definition image_size :: "VarcEntry list \<Rightarrow> nat" where
  "image_size entries = 64 + length (concat (map entry_record entries))"

definition archive_image :: "Archive \<Rightarrow> bytes" where
  "archive_image a =
     take 64 (GlobalHeader_serialize (m_header (updateHeader a)))
     @ concat (map entry_record (m_entries a))"

section \<open>Example values\<close>

text \<open>
  Stand-ins for the libraries, to run the model on examples. They are not SHA-256, PBKDF2,
  AES or DEFLATE: the digest is the first 32 bytes of the zero-padded input, the key is cut
  from password and salt, the cipher masks every byte with the first key byte and pads to
  a multiple of 16 as PKCS#7 does, and the compressor stores its input behind the two
  gzip magic bytes. No theorem about the archive depends on them.
\<close>

definition demo_prims :: prims where
  "demo_prims =
    \<lparr> SHA256 = (\<lambda>data. take 32 (data @ replicate 32 0)),
      PBKDF2_HMAC = (\<lambda>password slt iterations keySize.
                       take keySize (bytes_of_string password @ slt @ replicate keySize 0)),
      AES_256_CBC_encrypt = (\<lambda>key v plaintext.
                       Inr (map (\<lambda>b. b XOR hd key) plaintext
                            @ replicate (16 - length plaintext mod 16)
                                (of_nat (16 - length plaintext mod 16)))),
      zlib_deflate = (\<lambda>level windowBits input. DeflateStreamEnd ([0x1F, 0x8B] @ input)) \<rparr>"



text \<open>
  A machine with no files, where every path can be written, 128 bytes of randomness at
  hand and the byte \<open>0xAA\<close> behind every buffer.
\<close>

definition demo_machine :: machine where
  "demo_machine =
    \<lparr> files = (\<lambda>path. None), creatable = (\<lambda>path. True),
      entropy = map of_nat [1..<129], behind_buffer = (\<lambda>k. 0xAA) \<rparr>"

definition demo_options :: "bool \<Rightarrow> bool \<Rightarrow> string \<Rightarrow> CreateOptions" where
  "demo_options c e pw =
    \<lparr> opt_compress = c, opt_compressionLevel = 6, opt_encrypt = e, opt_password = pw \<rparr>"

text \<open>An open archive that is marked as encrypted, with one entry marked as encrypted.\<close>

definition demo_locked :: Archive where
  "demo_locked =
    Archive_new
      \<lparr> m_loaded := True,
        m_header := GlobalHeader_new\<lparr>flags := ArchiveFlags_ENCRYPTED\<rparr>,
        m_entries := [setFlags EntryFlags_ENCRYPTED (VarcEntry_of_data demo_prims ''a'' [0x41] FILE)] \<rparr>"

text \<open>An open, empty archive as \<^verbatim>\<open>create\<close> leaves it, and the engine it compresses with.\<close>

definition demo_open :: Archive where
  "demo_open = Archive_new\<lparr>m_filepath := ''demo.varc'', m_modified := True, m_loaded := True\<rparr>"


text \<open>A zlib whose \<^verbatim>\<open>deflate\<close> does not reach the end of the stream.\<close>

definition demo_prims_deflate_fails :: prims where
  "demo_prims_deflate_fails =
     demo_prims\<lparr>zlib_deflate := (\<lambda>level windowBits input. DeflateNotFinished (replicate 16 0))\<rparr>"

text \<open>
  An entry made with the constructor that takes sizes instead of content (it has no
  checksum yet), and the open archive that holds it after \<^verbatim>\<open>addEntry\<close>.
\<close>

definition demo_unchecked_entry :: VarcEntry where
  "demo_unchecked_entry = VarcEntry_of_sizes ''a'' FILE 0 0"

definition demo_unchecked :: Archive where
  "demo_unchecked = demo_open\<lparr>m_entries := [demo_unchecked_entry]\<rparr>"

text \<open>
  A sequence of calls on the archive \<open>demo_open\<close>, and the archive they leave: of the
  three entries added, the first (stored compressed) is removed by its path and the
  third by a pattern.
\<close>

definition demo_ops :: "archive_op list" where
  "demo_ops =
     [ClearEntries,
      AddVirtual ''a'' [0x41] (demo_options True False []),
      AddVirtual ''b'' [0x42, 0x43] (demo_options False False []),
      AddVirtual ''c'' [0x44] (demo_options False False []),
      RemoveEntry ''a'',
      RemoveEntries ''c'']"

definition demo_after_ops :: Archive where
  "demo_after_ops = demo_open\<lparr>m_entries := [VarcEntry_of_data demo_prims ''b'' [0x42, 0x43] FILE]\<rparr>"

text \<open>
  A path of 65536 bytes, one more than the two bytes of the entry header can count, and
  two calls that add an entry with this path and a second entry.
\<close>

definition demo_long_path :: string where
  "demo_long_path = replicate 65536 CHR ''x''"

definition demo_long_ops :: "archive_op list" where
  "demo_long_ops =
     [AddVirtual demo_long_path [0x41] (demo_options False False []),
      AddVirtual ''b'' [0x42] (demo_options False False [])]"

text \<open>The flag a call returned, \<open>False\<close> if it did not return.\<close>

definition returned :: "abort + bool \<times> 'a \<Rightarrow> bool" where
  "returned r = (case r of Inl e \<Rightarrow> False | Inr (ok, rest) \<Rightarrow> ok)"

text \<open>A header as \<^verbatim>\<open>save\<close> writes it for an empty archive: 64 bytes.\<close>

definition demo_header_bytes :: bytes where
  "demo_header_bytes = bytes_of_string ''VARC'' @ [0, 3, 0, 0, 0, 0, 0, 0] @ replicate 52 0"

section \<open>The header codec\<close>

lemma ucast_and_255: "(ucast (w AND 0xFF) :: byte) = ucast (w :: 'a::len word)"
proof -
  have "w AND 255 = take_bit 8 w"
    by (simp add: take_bit_eq_mask mask_eq_exp_minus_1)
  then show ?thesis
    by (intro bit_word_eqI) (auto simp: bit_simps dest: bit_imp_le_length)
qed

lemma be_encode_0: "be_encode 0 w = []"
  by (simp add: be_encode_def)

lemma be_encode_Suc: "be_encode (Suc n) w = ucast (drop_bit (n * 8) w) # be_encode n w"
  by (simp add: be_encode_def ucast_and_255)

lemma length_be_encode: "length (be_encode n w) = n"
  by (simp add: be_encode_def)

lemma foldl_be_encode:
  "foldl (\<lambda>acc b. push_bit 8 acc OR ucast b) (a :: 'a::len word) (be_encode n (w :: 'b::len word))
     = push_bit (n * 8) a OR ucast (take_bit (n * 8) w)"
proof (induction n arbitrary: a)
  case 0
  show ?case by (simp add: be_encode_0)
next
  case (Suc n)
  show ?case
    unfolding be_encode_Suc foldl_Cons Suc.IH
    by (intro bit_word_eqI) (auto simp: bit_simps add.commute [of 8] dest: bit_imp_le_length)
qed

lemma be_decode_encode:
  "(be_decode (be_encode n (w :: 'b::len word)) :: 'a::len word) = ucast (take_bit (n * 8) w)"
  by (simp add: be_decode_def foldl_be_encode)

lemma be_decode_encode_id:
  "LENGTH('a::len) \<le> n * 8 \<Longrightarrow> be_decode (be_encode n (w :: 'a word)) = w"
  by (simp add: be_decode_encode take_bit_word_eq_self)

lemma be_decode_snoc: "be_decode (bs @ [b]) = push_bit 8 (be_decode bs) OR ucast b"
  by (simp add: be_decode_def)

lemma be_encode_snoc: "be_encode (Suc n) w = be_encode n (drop_bit 8 w) @ [ucast w]"
proof (induction n)
  case 0
  show ?case by (simp add: be_encode_Suc be_encode_0)
next
  case (Suc n)
  have "be_encode (Suc (Suc n)) w = ucast (drop_bit (Suc n * 8) w) # be_encode (Suc n) w"
    by (rule be_encode_Suc)
  also have "\<dots> = ucast (drop_bit (n * 8) (drop_bit 8 w)) # (be_encode n (drop_bit 8 w) @ [ucast w])"
    by (simp add: Suc.IH drop_bit_drop_bit add.commute)
  also have "\<dots> = be_encode (Suc n) (drop_bit 8 w) @ [ucast w]"
    by (simp add: be_encode_Suc)
  finally show ?case .
qed

lemma be_encode_cong:
  assumes h: "take_bit (n * 8) w = take_bit (n * 8) w'"
  shows "be_encode n w = be_encode n (w' :: 'a::len word)"
proof -
  have "(ucast (drop_bit (i * 8) w) :: byte) = ucast (drop_bit (i * 8) w')" if i: "i < n" for i
  proof (rule bit_word_eqI)
    fix k assume k: "k < LENGTH(8)"
    have "i * 8 + k < n * 8" using i k by simp
    then have "bit w (i * 8 + k) = bit w' (i * 8 + k)"
      using h by (metis bit_take_bit_iff)
    then show "bit (ucast (drop_bit (i * 8) w) :: byte) k = bit (ucast (drop_bit (i * 8) w') :: byte) k"
      using k by (simp add: bit_simps)
  qed
  then show ?thesis
    by (simp add: be_encode_def ucast_and_255)
qed

lemma be_encode_decode:
  "length bs = n \<Longrightarrow> n * 8 \<le> LENGTH('a::len) \<Longrightarrow> be_encode n (be_decode bs :: 'a word) = bs"
proof (induction bs arbitrary: n rule: rev_induct)
  case Nil
  then show ?case by (simp add: be_encode_0)
next
  case (snoc b bs)
  then obtain m where n: "n = Suc m" and m: "length bs = m" and len: "Suc m * 8 \<le> LENGTH('a)"
    by (cases n) auto
  let ?w = "push_bit 8 (be_decode bs :: 'a word) OR ucast b"
  have 1: "(ucast ?w :: byte) = b"
    by (intro bit_word_eqI) (use len in \<open>auto simp: bit_simps\<close>)
  have 2: "take_bit (m * 8) (drop_bit 8 ?w) = take_bit (m * 8) (be_decode bs :: 'a word)"
    by (intro bit_word_eqI) (use len in \<open>auto simp: bit_simps dest: bit_imp_le_length\<close>)
  have "be_encode n (be_decode (bs @ [b]) :: 'a word) = be_encode m (drop_bit 8 ?w) @ [ucast ?w]"
    by (simp add: n be_decode_snoc be_encode_snoc)
  also have "\<dots> = be_encode m (be_decode bs :: 'a word) @ [b]"
    using be_encode_cong [OF 2] 1 by simp
  also have "\<dots> = bs @ [b]"
    using snoc.IH [OF m] len by simp
  finally show ?case .
qed

lemma subvec_eq_map_nth:
  "offset + n \<le> length data \<Longrightarrow> subvec data offset n = map (\<lambda>i. data ! (offset + i)) [0..<n]"
  by (auto simp: subvec_def intro!: nth_equalityI)

lemma be_read_decode: "be_read rd offset n = be_decode (map (\<lambda>i. rd (offset + i)) [0..<n])"
  by (simp add: be_read_def be_decode_def foldl_map)

lemma be_read_subvec:
  "offset + n \<le> length data \<Longrightarrow> be_read ((!) data) offset n = be_decode (subvec data offset n)"
  by (simp add: be_read_decode subvec_eq_map_nth)

lemma map_shift_upt: "map (\<lambda>i. f (a + i)) [0..<n] = map f [a..<a + n]"
  by (induction n) simp_all

lemma map_vec_at_inside:
  "b \<le> length data \<Longrightarrow> map (vec_at data beyond) [a..<b] = map ((!) data) [a..<b]"
  by (simp add: vec_at_def)

lemma map_vec_at_outside:
  "map (vec_at data beyond) [length data..<length data + n] = map beyond [0..<n]"
proof -
  have "map (vec_at data beyond) [length data..<length data + n]
      = map (\<lambda>i. vec_at data beyond (length data + i)) [0..<n]"
    by (simp add: map_shift_upt)
  then show ?thesis by (simp add: vec_at_def)
qed

lemma be_read_vec_at:
  "offset + n \<le> length data \<Longrightarrow> be_read (vec_at data beyond) offset n = be_decode (subvec data offset n)"
  by (simp add: be_read_decode subvec_eq_map_nth map_shift_upt map_vec_at_inside)

lemma two_bytes_encode:
  "[ucast (drop_bit 8 w AND 0xFF), ucast (w AND 0xFF)] = be_encode 2 (w :: 'a::len word)"
  by (simp add: be_encode_def numeral_2_eq_2)

lemma two_bytes_decode:
  "offset + 2 \<le> length data \<Longrightarrow>
   push_bit 8 (ucast (data ! offset)) OR ucast (data ! Suc offset) = be_decode (subvec data offset 2)"
  by (simp add: subvec_eq_map_nth be_decode_def numeral_2_eq_2)

lemma subvec_append: "subvec xs a n @ subvec xs (a + n) m = subvec xs a (n + m)"
  unfolding subvec_def by (metis add.commute drop_drop take_add)

lemma length_subvec: "offset + n \<le> length data \<Longrightarrow> length (subvec data offset n) = n"
  by (simp add: subvec_def)

lemma map_nth_pad:
  "length xs = n \<Longrightarrow> map (\<lambda>i. if i < length xs then xs ! i else 0) [0..<n] = xs"
  by (auto intro!: nth_equalityI)

lemma GlobalHeader_deserialize_fails_iff:
  "(\<not> fst (GlobalHeader_deserialize beyond h data))
     = (length data < 64 \<or> subvec data 0 4 \<noteq> VARC_SIGNATURE)"
  by (simp add: GlobalHeader_deserialize_def Let_def)

lemma length_GlobalHeader_serialize:
  "length (GlobalHeader_serialize h) = length (signature h) + 64"
  by (simp add: GlobalHeader_serialize_def length_be_encode)

lemma GlobalHeader_deserialize_fields:
  assumes len: "64 \<le> length data" and sig: "subvec data 0 4 = VARC_SIGNATURE"
  shows "GlobalHeader_deserialize beyond h data =
     (True, h\<lparr> signature := subvec data 0 4,
               version := be_decode (subvec data 4 2),
               flags := be_decode (subvec data 6 2),
               fileCount := be_decode (subvec data 8 4),
               salt := subvec data 12 32,
               iv := subvec data 44 16,
               reserved := be_decode (map (vec_at data beyond) [60..<68]) \<rparr>)"
proof -
  have v: "push_bit 8 (ucast (data ! 4)) OR ucast (data ! 5) = (be_decode (subvec data 4 2) :: 16 word)"
    using two_bytes_decode [of 4 data, where 'a = 16] len by simp
  have f: "push_bit 8 (ucast (data ! 6)) OR ucast (data ! 7) = (be_decode (subvec data 6 2) :: 16 word)"
    using two_bytes_decode [of 6 data, where 'a = 16] len by simp
  have c: "(be_read (vec_at data beyond) 8 4 :: 32 word) = be_decode (subvec data 8 4)"
    using len by (simp add: be_read_vec_at)
  have "map (\<lambda>i. vec_at data beyond (60 + i)) [0..<8] = map (vec_at data beyond) [60..<68]"
    using map_shift_upt [of "vec_at data beyond" 60 8] by simp
  then have r: "(be_read (vec_at data beyond) 60 8 :: 64 word)
      = be_decode (map (vec_at data beyond) [60..<68])"
    by (simp add: be_read_decode)
  show ?thesis
    using len sig v f c r
    by (simp add: GlobalHeader_deserialize_def Let_def SALT_SIZE_def IV_SIZE_def)
qed

lemma upt_0_4: "[0..<4] = [0, 1, 2, 3 :: nat]"
  by code_simp

lemma vec_at_tail:
  "length data = 64 \<Longrightarrow>
   map (vec_at data beyond) [60..<68] = subvec data 60 4 @ map beyond [0..<4]"
  by (simp add: vec_at_def subvec_eq_map_nth upt_0_4)

lemma GlobalHeader_serialize_wf:
  assumes "length (salt h) = 32" and "length (iv h) = 16"
  shows "GlobalHeader_serialize h =
     signature h @ be_encode 2 (version h) @ be_encode 2 (flags h) @ be_encode 4 (fileCount h)
       @ salt h @ iv h @ be_encode 8 (reserved h)"
  using map_nth_pad [OF assms(1)] map_nth_pad [OF assms(2)]
  by (simp add: GlobalHeader_serialize_def two_bytes_encode assms)

lemma GlobalHeader_reencode:
  assumes len: "length data = 64" and ok: "fst (GlobalHeader_deserialize beyond h data)"
  shows "GlobalHeader_serialize (snd (GlobalHeader_deserialize beyond h data))
           = data @ map beyond [0..<4]"
proof -
  have sig: "subvec data 0 4 = VARC_SIGNATURE"
    using ok len by (simp add: GlobalHeader_deserialize_def Let_def split: if_splits)
  define h' where "h' = snd (GlobalHeader_deserialize beyond h data)"
  have h': "h' = h\<lparr> signature := subvec data 0 4,
               version := be_decode (subvec data 4 2),
               flags := be_decode (subvec data 6 2),
               fileCount := be_decode (subvec data 8 4),
               salt := subvec data 12 32,
               iv := subvec data 44 16,
               reserved := be_decode (subvec data 60 4 @ map beyond [0..<4]) \<rparr>"
    unfolding h'_def using len
    by (simp only: GlobalHeader_deserialize_fields [OF _ sig] vec_at_tail [OF len]) simp
  have r: "be_encode 8 (be_decode (subvec data 60 4 @ map beyond [0..<4]) :: 64 word)
      = subvec data 60 4 @ map beyond [0..<4]"
    using len by (intro be_encode_decode) (simp_all add: length_subvec)
  have "GlobalHeader_serialize h'
      = subvec data 0 4 @ subvec data 4 2 @ subvec data 6 2 @ subvec data 8 4 @ subvec data 12 32
         @ subvec data 44 16 @ subvec data 60 4 @ map beyond [0..<4]"
    using len r by (subst GlobalHeader_serialize_wf) (simp_all add: h' length_subvec be_encode_decode)
  also have "\<dots> = subvec data 0 64 @ map beyond [0..<4]"
    using subvec_append [of data 0 4 2] subvec_append [of data 0 6 2] subvec_append [of data 0 8 4]
      subvec_append [of data 0 12 32] subvec_append [of data 0 44 16] subvec_append [of data 0 60 4]
    by (simp flip: append_assoc)
  also have "\<dots> = data @ map beyond [0..<4]" using len by (simp add: subvec_def)
  finally show ?thesis unfolding h'_def .
qed

text \<open>
  C6. The claim: for every 64-byte buffer that the global-header decoder accepts,
  re-encoding the decoded header gives back the input bytes, reserved fields included;
  and decoding fails exactly when the buffer is shorter than 64 bytes or does not start
  with the signature \<open>VARC\<close>.

  On the code the second half holds and the first does not. The fields of the header add
  up to 68 bytes, not 64: for an accepted 64-byte buffer the decoder takes the low half of
  \<open>reserved\<close> from the four bytes behind the buffer, and the encoder returns 68 bytes,
  the input followed by those four.
\<close>

theorem C6_header_reencode_is_68_bytes:
  "(\<not> fst (GlobalHeader_deserialize beyond h data))
      = (length data < 64 \<or> subvec data 0 4 \<noteq> VARC_SIGNATURE)
   \<and> (length data = 64 \<and> fst (GlobalHeader_deserialize beyond h data)
        \<longrightarrow> GlobalHeader_serialize (snd (GlobalHeader_deserialize beyond h data))
              = data @ [beyond 0, beyond 1, beyond 2, beyond 3])"
  using GlobalHeader_reencode [of data beyond h]
  by (simp add: GlobalHeader_deserialize_fails_iff upt_0_4)

theorem C6_header_reencode_witness:
  "length demo_header_bytes = 64
   \<and> fst (GlobalHeader_deserialize (\<lambda>k. 0xAA) GlobalHeader_new demo_header_bytes)
   \<and> GlobalHeader_serialize (snd (GlobalHeader_deserialize (\<lambda>k. 0xAA) GlobalHeader_new demo_header_bytes))
       = demo_header_bytes @ [0xAA, 0xAA, 0xAA, 0xAA]
   \<and> length (GlobalHeader_serialize
        (snd (GlobalHeader_deserialize (\<lambda>k. 0xAA) GlobalHeader_new demo_header_bytes))) = 68"
proof -
  have len: "length demo_header_bytes = 64"
    by (simp add: demo_header_bytes_def bytes_of_string_def)
  have sig: "subvec demo_header_bytes 0 4 = VARC_SIGNATURE"
    by (simp add: demo_header_bytes_def bytes_of_string_def subvec_def VARC_SIGNATURE_def)
  have ok: "fst (GlobalHeader_deserialize (\<lambda>k. 0xAA) GlobalHeader_new demo_header_bytes)"
    using len sig C6_header_reencode_is_68_bytes [of "\<lambda>k. 0xAA" GlobalHeader_new demo_header_bytes]
    by simp
  show ?thesis
    using len ok C6_header_reencode_is_68_bytes [of "\<lambda>k. 0xAA" GlobalHeader_new demo_header_bytes]
    by simp
qed

section \<open>Glob patterns\<close>

lemma find_char_star_txt: "string_find_char ''*.txt'' (CHR ''*'') (0 + 1) = npos"
  by (simp add: string_find_char_def upt_rec)

lemma segment_star_txt:
  "string_substr ''*.txt'' (0 + 1) (size_t_sub (size_t_sub npos 0) 1) = ''.txt''"
  by (simp add: string_substr_def size_t_sub_def npos_def SIZE_MAX_def)

lemma npos_not_lt_5: "\<not> npos < length ''*.txt''"
  by (simp add: npos_def SIZE_MAX_def)

lemma npos_neq_5: "npos \<noteq> length ''*.txt''"
  by (simp add: npos_def SIZE_MAX_def)

lemma matchesPattern_star_txt: "matchesPattern str ''*.txt'' = Some False"
proof (cases "str = []")
  case True
  then show ?thesis
    unfolding matchesPattern_def by (subst matchesPattern_loop.simps) simp
next
  case False
  have exit: "matchesPattern_loop str ''*.txt'' k npos = Some False" for k
    using npos_not_lt_5 npos_neq_5
    by (subst matchesPattern_loop.simps) simp
  show ?thesis
    unfolding matchesPattern_def
    apply (subst matchesPattern_loop.simps)
    using False
    apply (simp only: find_char_star_txt segment_star_txt Let_def exit)
    apply simp
    done
qed

lemma matching_entries_star_txt: "matching_entries es ''*.txt'' = Some []"
  by (induction es) (simp_all add: matchesPattern_star_txt)

text \<open>
  C8. The claim: for every entry list, \<^verbatim>\<open>findEntries\<close> with the glob \<open>*.txt\<close> returns
  exactly the entries whose paths end in \<open>.txt\<close>.

  On the code it returns no entry at all, whatever the archive holds: after the segment
  behind the last \<^verbatim>\<open>*\<close> has been found, \<open>j\<close> is set to \<open>npos\<close>, and the final test
  \<^verbatim>\<open>j == pattern.size()\<close> fails.
\<close>

theorem C8_findEntries_star_txt_is_empty: "findEntries a ''*.txt'' = Inr []"
  by (simp add: findEntries_def matching_entries_star_txt)

section \<open>lock and unlock\<close>

lemma and_not_and [simp]: "(w AND NOT x) AND x = (0 :: 'a::len word)"
  by (simp add: and.assoc)

lemma RAND_bytes_ok: "n \<le> length ent \<Longrightarrow> RAND_bytes n ent = Some (take n ent, drop n ent)"
  by (simp add: RAND_bytes_def)

lemma initializeFromPassword_ok:
  "password \<noteq> [] \<Longrightarrow> IV_SIZE \<le> length ent \<Longrightarrow>
   initializeFromPassword P password slt c ent =
     Inr (c\<lparr> m_key := fixed_buffer AES_KEY_SIZE (PBKDF2_HMAC P password slt PBKDF2_ITERATIONS AES_KEY_SIZE),
             m_iv := take IV_SIZE ent, m_initialized := True \<rparr>, drop IV_SIZE ent)"
  by (simp add: initializeFromPassword_def deriveKey_def generateIV_def RAND_bytes_def)

lemma initializeFromPassword_empty:
  "initializeFromPassword P [] slt c ent =
     Inl (Throw ''Password cannot be empty for key derivation'', c, ent)"
  by (simp add: initializeFromPassword_def deriveKey_def)

text \<open>
  C9. \<^verbatim>\<open>unlock(password)\<close> succeeds for every non-empty password whenever the header is
  marked as encrypted: the password is compared with nothing. It then clears the header
  flag and the flag of every entry. It returns false exactly when the header is not
  marked as encrypted or the password is empty (key derivation rejects the empty
  password and \<^verbatim>\<open>unlock\<close> catches the exception).

  \<^verbatim>\<open>initializeFromPassword\<close> also draws a fresh IV; the statement is for a CSPRNG that
  delivers its 16 bytes.
\<close>

theorem C9_unlock:
  assumes rng: "IV_SIZE \<le> length (entropy m)"
  shows "(case unlock P a m password of
            (ok, a', m') \<Rightarrow>
              ok = (GlobalHeader_isEncrypted (m_header a) \<and> password \<noteq> [])
              \<and> (if ok
                  then \<not> GlobalHeader_isEncrypted (m_header a')
                       \<and> list_all (\<lambda>e. \<not> isEncrypted e) (m_entries a')
                       \<and> m_entries a' =
                           map (\<lambda>e. e\<lparr>m_flags := m_flags e AND NOT EntryFlags_ENCRYPTED\<rparr>) (m_entries a)
                  else m_header a' = m_header a \<and> m_entries a' = m_entries a))"
proof (cases "GlobalHeader_isEncrypted (m_header a)")
  case False
  then show ?thesis by (simp add: unlock_def)
next
  case enc: True
  show ?thesis
  proof (cases "password = []")
    case True
    then show ?thesis using enc by (simp add: unlock_def initializeFromPassword_empty)
  next
    case False
    then show ?thesis
      using enc rng
      by (simp add: unlock_def initializeFromPassword_ok GlobalHeader_isEncrypted_def
            isEncrypted_def setFlags_def list_all_iff)
  qed
qed

lemma demo_entropy_length: "length (entropy demo_machine) = 128"
  by (simp add: demo_machine_def)

lemma demo_locked_isEncrypted: "GlobalHeader_isEncrypted (m_header demo_locked)"
  by (simp add: demo_locked_def Archive_new_def GlobalHeader_new_def GlobalHeader_isEncrypted_def
        ArchiveFlags_ENCRYPTED_def)

theorem C9_unlock_witness:
  "IV_SIZE \<le> length (entropy demo_machine)
   \<and> GlobalHeader_isEncrypted (m_header demo_locked)
   \<and> list_all isEncrypted (m_entries demo_locked)
   \<and> fst (unlock demo_prims demo_locked demo_machine ''not the password'')
   \<and> \<not> GlobalHeader_isEncrypted (m_header (fst (snd (unlock demo_prims demo_locked demo_machine ''not the password''))))
   \<and> list_all (\<lambda>e. \<not> isEncrypted e) (m_entries (fst (snd (unlock demo_prims demo_locked demo_machine ''not the password''))))
   \<and> \<not> fst (unlock demo_prims demo_locked demo_machine [])"
proof -
  have rng: "IV_SIZE \<le> length (entropy demo_machine)"
    by (simp add: demo_entropy_length IV_SIZE_def)
  have ent: "list_all isEncrypted (m_entries demo_locked)"
    by (simp add: demo_locked_def Archive_new_def isEncrypted_def setFlags_def EntryFlags_ENCRYPTED_def)
  show ?thesis
    using rng ent demo_locked_isEncrypted
      C9_unlock [OF rng, where P = demo_prims and a = demo_locked and password = "''not the password''"]
      C9_unlock [OF rng, where P = demo_prims and a = demo_locked and password = "[]"]
    by (simp split: prod.splits)
qed

section \<open>Adding entries\<close>

lemma generateSalt_ok:
  "n \<le> length ent \<Longrightarrow> generateSalt n ent = Inr (take n ent, drop n ent)"
  by (simp add: generateSalt_def RAND_bytes_def)

lemma generateIV_ok:
  "IV_SIZE \<le> length ent \<Longrightarrow> generateIV ent = Inr (take IV_SIZE ent, drop IV_SIZE ent)"
  by (simp add: generateIV_def RAND_bytes_def)

lemma isInitialized_after:
  "isInitialized (c\<lparr> m_key := fixed_buffer AES_KEY_SIZE k, m_iv := take IV_SIZE ent, m_initialized := True \<rparr>)
     = (IV_SIZE \<le> length ent \<or> ent \<noteq> [])"
  by (auto simp: isInitialized_def fixed_buffer_def AES_KEY_SIZE_def IV_SIZE_def)

text \<open>The entry after the compression step of \<^verbatim>\<open>processEntry\<close>.\<close>

lemma processEntry_plain:
  assumes "\<not> opt_encrypt options \<or> opt_password options = []"
  shows "processEntry P entry options a m =
     Inr (True,
          a\<lparr> m_entries := m_entries a @
                [if opt_compress options \<and> cr_success (compress P (m_compression a) (m_data entry))
                 then setFlags (m_flags entry OR EntryFlags_COMPRESSED)
                        (setCompressedSize (cr_compressedSize (compress P (m_compression a) (m_data entry)))
                           (setData P (compressedData (compress P (m_compression a) (m_data entry))) entry))
                 else entry],
              m_modified := True \<rparr>, m)"
  using assms
  by (auto simp: processEntry_def processEntry_encrypt_def processEntry_compress_def Let_def setFlags_def setCompressedSize_def setData_def)

lemma processEntry_returns:
  assumes rng: "SALT_SIZE + IV_SIZE + IV_SIZE \<le> length (entropy m)"
      and aes: "\<And>key v plaintext. \<exists>c. AES_256_CBC_encrypt P key v plaintext = Inr c"
  shows "\<exists>a' m' entry'. processEntry P entry options a m = Inr (True, a', m')
            \<and> m_entries a' = m_entries a @ [entry'] \<and> m_modified a'"
proof (cases "opt_encrypt options \<and> opt_password options \<noteq> []")
  case False
  then show ?thesis by (simp add: processEntry_plain)
next
  case True
  from aes have "\<exists>f. \<forall>key v plaintext. AES_256_CBC_encrypt P key v plaintext = Inr (f key v plaintext)"
    by metis
  then obtain f where f: "\<And>key v plaintext. AES_256_CBC_encrypt P key v plaintext = Inr (f key v plaintext)"
    by blast
  show ?thesis
  proof (cases "isInitialized (m_crypto a)")
    case init: True
    then show ?thesis
      using True by (simp add: processEntry_def processEntry_encrypt_def processEntry_compress_def Let_def encrypt_def f)
  next
    case ninit: False
    have len: "64 \<le> length (entropy m)"
      using rng by (simp add: SALT_SIZE_def IV_SIZE_def)
    show ?thesis
      using True ninit len
      by (simp add: processEntry_def processEntry_encrypt_def processEntry_compress_def Let_def generateSalt_ok generateIV_ok
            initializeFromPassword_def deriveKey_def encrypt_def isInitialized_def
            fixed_buffer_def AES_KEY_SIZE_def SALT_SIZE_def IV_SIZE_def f)
  qed
qed

text \<open>
  With encryption: the key and the IV are those of the engine when it is initialised, and
  otherwise come from the password, a fresh salt and a fresh IV.
\<close>

lemma processEntry_encrypted:
  assumes opts: "opt_encrypt options" "opt_password options \<noteq> []"
      and rng: "SALT_SIZE + IV_SIZE + IV_SIZE \<le> length (entropy m)"
      and ct: "AES_256_CBC_encrypt P
                 (if isInitialized (m_crypto a) then m_key (m_crypto a)
                  else fixed_buffer AES_KEY_SIZE
                         (PBKDF2_HMAC P (opt_password options) (take SALT_SIZE (entropy m))
                            PBKDF2_ITERATIONS AES_KEY_SIZE))
                 (if isInitialized (m_crypto a) then m_iv (m_crypto a)
                  else take IV_SIZE (drop SALT_SIZE (entropy m)))
                 (m_data entry) = Inr ct"
      and e2: "entry2 = setFlags (m_flags entry OR EntryFlags_ENCRYPTED) (setData P ct entry)"
  shows "\<exists>a' m'. processEntry P entry options a m = Inr (True, a', m')
           \<and> m_entries a' = m_entries a @
                [if opt_compress options \<and> cr_success (compress P (m_compression a) ct)
                 then setFlags (m_flags entry2 OR EntryFlags_COMPRESSED)
                        (setCompressedSize (cr_compressedSize (compress P (m_compression a) ct))
                           (setData P (compressedData (compress P (m_compression a) ct)) entry2))
                 else entry2]
           \<and> m_modified a'"
proof (cases "isInitialized (m_crypto a)")
  case True
  have fl: "m_flags (setCompressedSize s (setData P x e)) = m_flags e" for s x e
    by (simp add: setCompressedSize_def setData_def)
  from True have enc: "encrypt P (m_crypto a) (m_data entry) = Inr ct"
    using ct by (simp add: encrypt_def)
  have d: "m_data entry2 = ct" and f: "m_flags (setData P ct entry) = m_flags entry"
    by (simp_all add: e2 setFlags_def setData_def)
  show ?thesis
    using opts True
    by (simp add: processEntry_def processEntry_encrypt_def processEntry_compress_def enc Let_def
          e2 [symmetric] f d fl)
next
  case False
  have fl: "m_flags (setCompressedSize s (setData P x e)) = m_flags e" for s x e
    by (simp add: setCompressedSize_def setData_def)
  define slt where "slt = take SALT_SIZE (entropy m)"
  define ent1 where "ent1 = drop SALT_SIZE (entropy m)"
  define ent2 where "ent2 = drop IV_SIZE ent1"
  define ent3 where "ent3 = drop IV_SIZE ent2"
  have l: "SALT_SIZE \<le> length (entropy m)" "IV_SIZE \<le> length ent1" "IV_SIZE \<le> length ent2"
    using rng by (simp_all add: ent1_def ent2_def)
  define c where "c = (m_crypto a)\<lparr> m_key := fixed_buffer AES_KEY_SIZE
                           (PBKDF2_HMAC P (opt_password options) slt PBKDF2_ITERATIONS AES_KEY_SIZE),
                         m_iv := take IV_SIZE ent1, m_initialized := True \<rparr>"
  have salt: "generateSalt SALT_SIZE (entropy m) = Inr (slt, ent1)"
    unfolding slt_def ent1_def using l(1) by (rule generateSalt_ok)
  have init: "initializeFromPassword P (opt_password options) slt (m_crypto a) ent1 = Inr (c, ent2)"
    unfolding c_def ent2_def using opts(2) l(2) by (rule initializeFromPassword_ok)
  have giv: "generateIV ent2 = Inr (take IV_SIZE ent2, ent3)"
    unfolding ent3_def using l(3) by (rule generateIV_ok)
  have ci: "isInitialized c"
    unfolding c_def isInitialized_after using l(2) by simp
  have "AES_256_CBC_encrypt P (m_key c) (m_iv c) (m_data entry) = Inr ct"
    using ct False by (simp add: c_def slt_def ent1_def)
  then have enc: "encrypt P c (m_data entry) = Inr ct"
    by (simp add: encrypt_def ci)
  have d: "m_data entry2 = ct" and f: "m_flags (setData P ct entry) = m_flags entry"
    by (simp_all add: e2 setFlags_def setData_def)
  show ?thesis
    using opts False
    by (simp add: processEntry_def processEntry_encrypt_def processEntry_compress_def salt init
          giv enc Let_def e2 [symmetric] f d fl)
qed

text \<open>
  C10. On an open archive \<^verbatim>\<open>addVirtualFile\<close>, and \<^verbatim>\<open>processEntry\<close> in general,
  returns true and appends exactly one entry. When encryption is requested with an empty
  password the entry is stored as without encryption: in plaintext, with no flag added
  and no error. When compression fails the entry is stored uncompressed, with no
  COMPRESSED flag and no error: without encryption it is the entry as it was given, and
  with encryption it is the encrypted entry, which holds the ciphertext and has the
  ENCRYPTED flag added to the flags it had.

  The only calls that can fail inside \<^verbatim>\<open>processEntry\<close> are those of the crypto library
  (drawing salt and IVs, running the cipher), with encryption requested and a non-empty
  password; the theorem is for a CSPRNG that delivers and a cipher that returns a
  ciphertext. The cipher runs with the key and the IV of the engine when it is
  initialised, and otherwise with the key derived from the password and a fresh salt, and
  a fresh IV. The last two parts give the appended entry in every case, without and with
  encryption.
\<close>

theorem C10_processEntry_returns_true:
  assumes rng: "SALT_SIZE + IV_SIZE + IV_SIZE \<le> length (entropy m)"
      and aes: "\<And>key v plaintext. \<exists>c. AES_256_CBC_encrypt P key v plaintext = Inr c"
  shows "(\<exists>a' m' entry'. processEntry P entry options a m = Inr (True, a', m')
            \<and> m_entries a' = m_entries a @ [entry'] \<and> m_modified a')
       \<and> (isOpen a \<longrightarrow>
            addVirtualFile P path data options a m
              = processEntry P (VarcEntry_of_data P path data FILE) options a m)
       \<and> (opt_encrypt options \<and> opt_password options = [] \<and> \<not> opt_compress options \<longrightarrow>
            processEntry P entry options a m
              = Inr (True, a\<lparr>m_entries := m_entries a @ [entry], m_modified := True\<rparr>, m))
       \<and> (opt_encrypt options \<and> opt_password options = [] \<longrightarrow>
            processEntry P entry options a m
              = processEntry P entry (options\<lparr>opt_encrypt := False\<rparr>) a m)
       \<and> ((\<not> opt_encrypt options \<or> opt_password options = []) \<and> opt_compress options
              \<and> \<not> cr_success (compress P (m_compression a) (m_data entry)) \<longrightarrow>
            processEntry P entry options a m
              = Inr (True, a\<lparr>m_entries := m_entries a @ [entry], m_modified := True\<rparr>, m))
       \<and> (opt_encrypt options \<and> opt_password options \<noteq> []
              \<and> AES_256_CBC_encrypt P
                   (if isInitialized (m_crypto a) then m_key (m_crypto a)
                    else fixed_buffer AES_KEY_SIZE
                           (PBKDF2_HMAC P (opt_password options) (take SALT_SIZE (entropy m))
                              PBKDF2_ITERATIONS AES_KEY_SIZE))
                   (if isInitialized (m_crypto a) then m_iv (m_crypto a)
                    else take IV_SIZE (drop SALT_SIZE (entropy m)))
                   (m_data entry) = Inr ct
              \<and> opt_compress options
              \<and> \<not> cr_success (compress P (m_compression a) ct) \<longrightarrow>
            (\<exists>a' m'. processEntry P entry options a m = Inr (True, a', m')
               \<and> m_entries a' = m_entries a @
                    [setFlags (m_flags entry OR EntryFlags_ENCRYPTED) (setData P ct entry)]
               \<and> m_modified a'))
       \<and> (\<not> opt_encrypt options \<or> opt_password options = [] \<longrightarrow>
            processEntry P entry options a m =
              Inr (True,
                   a\<lparr> m_entries := m_entries a @
                         [if opt_compress options
                             \<and> cr_success (compress P (m_compression a) (m_data entry))
                          then setFlags (m_flags entry OR EntryFlags_COMPRESSED)
                                 (setCompressedSize
                                    (cr_compressedSize (compress P (m_compression a) (m_data entry)))
                                    (setData P
                                       (compressedData (compress P (m_compression a) (m_data entry)))
                                       entry))
                          else entry],
                       m_modified := True \<rparr>, m))
       \<and> (opt_encrypt options \<and> opt_password options \<noteq> []
              \<and> AES_256_CBC_encrypt P
                   (if isInitialized (m_crypto a) then m_key (m_crypto a)
                    else fixed_buffer AES_KEY_SIZE
                           (PBKDF2_HMAC P (opt_password options) (take SALT_SIZE (entropy m))
                              PBKDF2_ITERATIONS AES_KEY_SIZE))
                   (if isInitialized (m_crypto a) then m_iv (m_crypto a)
                    else take IV_SIZE (drop SALT_SIZE (entropy m)))
                   (m_data entry) = Inr ct
              \<and> entry2 = setFlags (m_flags entry OR EntryFlags_ENCRYPTED) (setData P ct entry)
            \<longrightarrow>
            (\<exists>a' m'. processEntry P entry options a m = Inr (True, a', m')
               \<and> m_entries a' = m_entries a @
                    [if opt_compress options \<and> cr_success (compress P (m_compression a) ct)
                     then setFlags (m_flags entry2 OR EntryFlags_COMPRESSED)
                            (setCompressedSize (cr_compressedSize (compress P (m_compression a) ct))
                               (setData P (compressedData (compress P (m_compression a) ct)) entry2))
                     else entry2]
               \<and> m_modified a'))"
proof -
  have general: "\<exists>a' m'. processEntry P entry options a m = Inr (True, a', m')
               \<and> m_entries a' = m_entries a @
                    [if opt_compress options \<and> cr_success (compress P (m_compression a) ct)
                     then setFlags (m_flags entry2 OR EntryFlags_COMPRESSED)
                            (setCompressedSize (cr_compressedSize (compress P (m_compression a) ct))
                               (setData P (compressedData (compress P (m_compression a) ct)) entry2))
                     else entry2]
               \<and> m_modified a'"
    if "opt_encrypt options \<and> opt_password options \<noteq> []
              \<and> AES_256_CBC_encrypt P
                   (if isInitialized (m_crypto a) then m_key (m_crypto a)
                    else fixed_buffer AES_KEY_SIZE
                           (PBKDF2_HMAC P (opt_password options) (take SALT_SIZE (entropy m))
                              PBKDF2_ITERATIONS AES_KEY_SIZE))
                   (if isInitialized (m_crypto a) then m_iv (m_crypto a)
                    else take IV_SIZE (drop SALT_SIZE (entropy m)))
                   (m_data entry) = Inr ct
              \<and> entry2 = setFlags (m_flags entry OR EntryFlags_ENCRYPTED) (setData P ct entry)"
    using that processEntry_encrypted [of options m P a entry ct entry2] rng by blast
  have plain: "processEntry P entry options a m =
              Inr (True,
                   a\<lparr> m_entries := m_entries a @
                         [if opt_compress options
                             \<and> cr_success (compress P (m_compression a) (m_data entry))
                          then setFlags (m_flags entry OR EntryFlags_COMPRESSED)
                                 (setCompressedSize
                                    (cr_compressedSize (compress P (m_compression a) (m_data entry)))
                                    (setData P
                                       (compressedData (compress P (m_compression a) (m_data entry)))
                                       entry))
                          else entry],
                       m_modified := True \<rparr>, m)"
    if "\<not> opt_encrypt options \<or> opt_password options = []"
    using that by (rule processEntry_plain)
  have "\<exists>a' m'. processEntry P entry options a m = Inr (True, a', m')
               \<and> m_entries a' = m_entries a @
                    [setFlags (m_flags entry OR EntryFlags_ENCRYPTED) (setData P ct entry)]
               \<and> m_modified a'"
    if "opt_encrypt options" "opt_password options \<noteq> []"
       "AES_256_CBC_encrypt P
                   (if isInitialized (m_crypto a) then m_key (m_crypto a)
                    else fixed_buffer AES_KEY_SIZE
                           (PBKDF2_HMAC P (opt_password options) (take SALT_SIZE (entropy m))
                              PBKDF2_ITERATIONS AES_KEY_SIZE))
                   (if isInitialized (m_crypto a) then m_iv (m_crypto a)
                    else take IV_SIZE (drop SALT_SIZE (entropy m)))
                   (m_data entry) = Inr ct"
       "opt_compress options" "\<not> cr_success (compress P (m_compression a) ct)"
    using processEntry_encrypted [OF that(1,2) rng that(3) refl] that(5) by simp
  then have failed: "\<exists>a' m'. processEntry P entry options a m = Inr (True, a', m')
               \<and> m_entries a' = m_entries a @
                    [setFlags (m_flags entry OR EntryFlags_ENCRYPTED) (setData P ct entry)]
               \<and> m_modified a'"
    if "opt_encrypt options \<and> opt_password options \<noteq> []
              \<and> AES_256_CBC_encrypt P
                   (if isInitialized (m_crypto a) then m_key (m_crypto a)
                    else fixed_buffer AES_KEY_SIZE
                           (PBKDF2_HMAC P (opt_password options) (take SALT_SIZE (entropy m))
                              PBKDF2_ITERATIONS AES_KEY_SIZE))
                   (if isInitialized (m_crypto a) then m_iv (m_crypto a)
                    else take IV_SIZE (drop SALT_SIZE (entropy m)))
                   (m_data entry) = Inr ct
              \<and> opt_compress options
              \<and> \<not> cr_success (compress P (m_compression a) ct)"
    using that by blast
  have first: "(\<exists>a' m' entry'. processEntry P entry options a m = Inr (True, a', m')
            \<and> m_entries a' = m_entries a @ [entry'] \<and> m_modified a')
       \<and> (isOpen a \<longrightarrow>
            addVirtualFile P path data options a m
              = processEntry P (VarcEntry_of_data P path data FILE) options a m)
       \<and> (opt_encrypt options \<and> opt_password options = [] \<and> \<not> opt_compress options \<longrightarrow>
            processEntry P entry options a m
              = Inr (True, a\<lparr>m_entries := m_entries a @ [entry], m_modified := True\<rparr>, m))
       \<and> (opt_encrypt options \<and> opt_password options = [] \<longrightarrow>
            processEntry P entry options a m
              = processEntry P entry (options\<lparr>opt_encrypt := False\<rparr>) a m)
       \<and> ((\<not> opt_encrypt options \<or> opt_password options = []) \<and> opt_compress options
              \<and> \<not> cr_success (compress P (m_compression a) (m_data entry)) \<longrightarrow>
            processEntry P entry options a m
              = Inr (True, a\<lparr>m_entries := m_entries a @ [entry], m_modified := True\<rparr>, m))"
    using processEntry_returns [OF rng aes, of entry options a]
    by (auto simp: processEntry_plain addVirtualFile_def)
  from first failed plain general show ?thesis
    by (elim conjE) (intro conjI impI; (assumption | blast))
qed

lemma demo_aes_total: "\<exists>c. AES_256_CBC_encrypt demo_prims key v plaintext = Inr c"
  by (simp add: demo_prims_def)

lemma demo_rng: "SALT_SIZE + IV_SIZE + IV_SIZE \<le> length (entropy demo_machine)"
  by (simp add: demo_machine_def SALT_SIZE_def IV_SIZE_def)

lemma demo_open_isOpen: "isOpen demo_open"
  by (simp add: demo_open_def isOpen_def)

lemma demo_cipher:
  "AES_256_CBC_encrypt demo_prims
     (fixed_buffer AES_KEY_SIZE (PBKDF2_HMAC demo_prims ''pw'' slt n AES_KEY_SIZE)) v [0x41]
   = Inr (0x31 # replicate 15 0x0F)"
  by (simp add: demo_prims_def fixed_buffer_def AES_KEY_SIZE_def bytes_of_string_def
        byte_of_char_def)

theorem C10_witness:
  "SALT_SIZE + IV_SIZE + IV_SIZE \<le> length (entropy demo_machine)
   \<and> isOpen demo_open
   \<and> addVirtualFile demo_prims ''a'' [0x41] (demo_options False True []) demo_open demo_machine
       = Inr (True,
              demo_open\<lparr>m_entries := [VarcEntry_of_data demo_prims ''a'' [0x41] FILE],
                          m_modified := True\<rparr>,
              demo_machine)
   \<and> m_data (VarcEntry_of_data demo_prims ''a'' [0x41] FILE) = [0x41]
   \<and> m_flags (VarcEntry_of_data demo_prims ''a'' [0x41] FILE) = 0
   \<and> addVirtualFile demo_prims_deflate_fails ''a'' [0x41] (demo_options True False []) demo_open demo_machine
       = Inr (True,
              demo_open\<lparr>m_entries := [VarcEntry_of_data demo_prims_deflate_fails ''a'' [0x41] FILE],
                          m_modified := True\<rparr>,
              demo_machine)
   \<and> (\<exists>a' m' entry'.
         addVirtualFile demo_prims_deflate_fails ''a'' [0x41] (demo_options True True ''pw'')
           demo_open demo_machine = Inr (True, a', m')
         \<and> m_entries a' = [entry']
         \<and> m_data entry' = 0x31 # replicate 15 0x0F
         \<and> m_flags entry' = EntryFlags_ENCRYPTED)"
proof -
  have aes2: "\<exists>c. AES_256_CBC_encrypt demo_prims_deflate_fails key v plaintext = Inr c" for key v plaintext
    by (simp add: demo_prims_deflate_fails_def demo_prims_def)
  have fails: "\<not> cr_success (compress demo_prims_deflate_fails (m_compression demo_open)
                  (m_data (VarcEntry_of_data demo_prims_deflate_fails ''a'' [0x41] FILE)))"
    by (simp add: compress_def demo_prims_deflate_fails_def VarcEntry_of_data_def)
  have fails2: "\<not> cr_success (compress demo_prims_deflate_fails (m_compression demo_open)
                  (0x31 # replicate 15 0x0F))"
    by (simp add: compress_def demo_prims_deflate_fails_def)
  have e0: "m_entries demo_open = []" and ninit: "\<not> isInitialized (m_crypto demo_open)"
    by (simp_all add: demo_open_def Archive_new_def CryptoEngine_new_def isInitialized_def)
  have ct: "AES_256_CBC_encrypt demo_prims_deflate_fails
     (fixed_buffer AES_KEY_SIZE (PBKDF2_HMAC demo_prims_deflate_fails ''pw'' slt n AES_KEY_SIZE)) v
     [0x41] = Inr (0x31 # replicate 15 0x0F)" for slt n v
    using demo_cipher [of slt n v] by (simp add: demo_prims_deflate_fails_def)
  have d: "m_data (VarcEntry_of_data P ''a'' [0x41] FILE) = [0x41]" for P
    by (simp add: VarcEntry_of_data_def)
  have enc: "\<exists>a' m'.
       processEntry demo_prims_deflate_fails
         (VarcEntry_of_data demo_prims_deflate_fails ''a'' [0x41] FILE)
         (demo_options True True ''pw'') demo_open demo_machine = Inr (True, a', m')
       \<and> m_entries a' = m_entries demo_open @
            [setFlags (m_flags (VarcEntry_of_data demo_prims_deflate_fails ''a'' [0x41] FILE)
                        OR EntryFlags_ENCRYPTED)
               (setData demo_prims_deflate_fails (0x31 # replicate 15 0x0F)
                  (VarcEntry_of_data demo_prims_deflate_fails ''a'' [0x41] FILE))]
       \<and> m_modified a'"
    using C10_processEntry_returns_true [OF demo_rng aes2,
        where entry = "VarcEntry_of_data demo_prims_deflate_fails ''a'' [0x41] FILE"
          and options = "demo_options True True ''pw''" and a = demo_open
          and ct = "0x31 # replicate 15 0x0F"]
      fails2 ninit
    by (simp add: demo_options_def ct d)
  have third: "\<exists>a' m' entry'.
         addVirtualFile demo_prims_deflate_fails ''a'' [0x41] (demo_options True True ''pw'')
           demo_open demo_machine = Inr (True, a', m')
         \<and> m_entries a' = [entry']
         \<and> m_data entry' = 0x31 # replicate 15 0x0F
         \<and> m_flags entry' = EntryFlags_ENCRYPTED"
    using enc
    by (auto simp: addVirtualFile_def demo_open_isOpen e0 setFlags_def setData_def
          VarcEntry_of_data_def)
  show ?thesis
    using demo_rng demo_open_isOpen fails e0 third
      C10_processEntry_returns_true [OF demo_rng demo_aes_total,
        where entry = "VarcEntry_of_data demo_prims ''a'' [0x41] FILE"
          and options = "demo_options False True []" and a = demo_open
          and path = "''a''" and data = "[0x41]"]
      C10_processEntry_returns_true [OF demo_rng aes2,
        where entry = "VarcEntry_of_data demo_prims_deflate_fails ''a'' [0x41] FILE"
          and options = "demo_options True False []" and a = demo_open
          and path = "''a''" and data = "[0x41]"]
    by (simp add: demo_options_def VarcEntry_of_data_def)
qed

section \<open>Verification\<close>

lemma findEntry_member:
  "e \<in> set (m_entries a) \<Longrightarrow> findEntry a (m_relativePath e) \<noteq> None"
  by (auto simp: findEntry_def find_None_iff)

lemma verifyEntry_iff: "fst (verifyEntry a path password) = (findEntry a path \<noteq> None)"
  by (simp add: verifyEntry_def split: option.splits)

lemma verify_entries_found:
  "set es \<subseteq> set (m_entries a) \<Longrightarrow> verify_entries a es password = (True, a)"
proof (induction es)
  case Nil
  show ?case by simp
next
  case (Cons e es)
  then have "findEntry a (m_relativePath e) \<noteq> None"
    by (simp add: findEntry_member)
  then have "verifyEntry a (m_relativePath e) password = (True, a)"
    by (auto simp: verifyEntry_def)
  then show ?case using Cons by simp
qed

text \<open>
  C3. The claim: \<^verbatim>\<open>verify\<close> (and \<^verbatim>\<open>verifyEntry\<close> for one entry) reverses the
  pipeline of each selected entry, compares the SHA-256 of the result with the stored
  checksum, and returns true if and only if every comparison succeeds.

  The code says of itself that it is simplified: \<^verbatim>\<open>verifyEntry\<close> returns true as soon
  as an entry with that path exists, and looks at neither data nor checksum. As amended:
  \<^verbatim>\<open>verify(password)\<close> returns true if and only if the header carries the signature
  and, when it is marked as encrypted, the password is not empty; it leaves the entries
  as they are. \<^verbatim>\<open>verifyEntry(path, password)\<close> returns true if and only if an entry
  with that path exists. (For an encrypted header \<^verbatim>\<open>verify\<close> draws an IV; the statement
  is for a CSPRNG that delivers it.)
\<close>

theorem C3_verify_checks_nothing:
  assumes rng: "IV_SIZE \<le> length (entropy m)"
  shows "(case verify P a m password of
            Inl e \<Rightarrow> False
          | Inr (ok, a', m') \<Rightarrow>
              ok = (GlobalHeader_isValid (m_header a)
                    \<and> (if GlobalHeader_isEncrypted (m_header a) then password \<noteq> [] else True))
              \<and> m_entries a' = m_entries a)
       \<and> fst (verifyEntry a path password) = (findEntry a path \<noteq> None)"
proof -
  have "verify_entries (a\<lparr>m_crypto := c\<rparr>) (m_entries a) password = (True, a\<lparr>m_crypto := c\<rparr>)" for c
    by (rule verify_entries_found) simp
  then show ?thesis
    using rng
    by (auto simp: verify_def verifyEntry_iff initializeFromPassword_ok)
qed

text \<open>
  The archive of the counterexample holds one entry without flags, so that its stored
  bytes are its content, and without a checksum of 32 bytes: the comparison of the claim
  fails for it, and \<^verbatim>\<open>verify\<close> returns true.
\<close>

theorem C3_counterexample:
  "returned (verify demo_prims demo_unchecked demo_machine [])
   \<and> m_entries demo_unchecked = [demo_unchecked_entry]
   \<and> \<not> isCompressed demo_unchecked_entry \<and> \<not> isEncrypted demo_unchecked_entry
   \<and> \<not> verifyChecksum demo_prims (m_data demo_unchecked_entry) (m_checksum demo_unchecked_entry)"
  by (simp add: returned_def verify_def demo_unchecked_def demo_unchecked_entry_def demo_open_def
        Archive_new_def GlobalHeader_new_def GlobalHeader_isValid_def GlobalHeader_isEncrypted_def
        verifyEntry_def findEntry_def VarcEntry_of_sizes_def isCompressed_def isEncrypted_def
        verifyChecksum_def HASH_SIZE_def)

theorem C3_witness:
  "IV_SIZE \<le> length (entropy demo_machine)
   \<and> returned (verify demo_prims demo_locked demo_machine ''not the password'')
   \<and> \<not> returned (verify demo_prims demo_locked demo_machine [])
   \<and> fst (verifyEntry demo_locked ''a'' [])
   \<and> \<not> fst (verifyEntry demo_locked ''b'' [])"
proof -
  have rng: "IV_SIZE \<le> length (entropy demo_machine)"
    by (simp add: demo_machine_def IV_SIZE_def)
  have enc: "GlobalHeader_isEncrypted (m_header demo_locked)"
    by (simp add: demo_locked_def Archive_new_def GlobalHeader_new_def GlobalHeader_isEncrypted_def
          ArchiveFlags_ENCRYPTED_def)
  have val: "GlobalHeader_isValid (m_header demo_locked)"
    by (simp add: demo_locked_def Archive_new_def GlobalHeader_new_def GlobalHeader_isValid_def)
  have fa: "findEntry demo_locked ''a'' \<noteq> None"
    by (simp add: findEntry_def demo_locked_def Archive_new_def setFlags_def VarcEntry_of_data_def)
  have fb: "findEntry demo_locked ''b'' = None"
    by (simp add: findEntry_def demo_locked_def Archive_new_def setFlags_def VarcEntry_of_data_def)
  show ?thesis
    using rng enc val fa fb
      C3_verify_checks_nothing [OF rng, where P = demo_prims and a = demo_locked
         and password = "''not the password''" and path = "''a''"]
      C3_verify_checks_nothing [OF rng, where P = demo_prims and a = demo_locked
         and password = "[]" and path = "''b''"]
    by (auto simp: returned_def verifyEntry_iff split: sum.splits)
qed

section \<open>Decompression\<close>











section \<open>The checksum of an entry\<close>

lemma setData_checksum: "m_checksum (setData P d e) = sha256 P (m_data (setData P d e))"
  by (simp add: setData_def)

lemma processEntry_checksum:
  assumes run: "processEntry P entry options a m = Inr (ok, a', m')"
      and c0: "m_checksum entry = sha256 P (m_data entry)"
  shows "m_checksum (last (m_entries a')) = sha256 P (m_data (last (m_entries a')))"
  using run c0
  by (auto simp: processEntry_def processEntry_encrypt_def processEntry_compress_def Let_def setFlags_def setCompressedSize_def setData_def
           split: if_splits sum.splits prod.splits)

lemma compress_ok:
  assumes "data \<noteq> []" and "length data < 2 ^ 32"
      and "zlib_deflate P (m_compressionLevel eng) (m_windowBits eng) data = DeflateStreamEnd z"
  shows "compress P eng data =
     \<lparr> compressedData = z, cr_originalSize = of_nat (length data),
       cr_compressedSize = of_nat (length z), cr_success = True, cr_errorMessage = [] \<rparr>"
  using assms by (simp add: compress_def)

text \<open>
  C2. The claim: whatever the pipeline does, the stored checksum of an entry is the
  SHA-256 of its original content; the pipeline never overwrites the checksum computed
  when the entry was created.

  On the code \<^verbatim>\<open>processEntry\<close> hands the encrypted and the compressed bytes to
  \<^verbatim>\<open>setData\<close>, which computes the checksum (and the original size) anew: the entry that
  is appended carries the SHA-256 of the bytes it stores. For content that zlib
  compresses to \<open>z\<close>, the stored checksum is that of \<open>z\<close>.
\<close>

theorem C2_checksum_is_of_the_stored_bytes:
  "(processEntry P entry options a m = Inr (ok, a', m')
      \<and> m_checksum entry = sha256 P (m_data entry)
      \<longrightarrow> m_checksum (last (m_entries a')) = sha256 P (m_data (last (m_entries a'))))
   \<and> (isOpen a \<and> \<not> opt_encrypt options \<and> opt_compress options
        \<and> data \<noteq> [] \<and> length data < 2 ^ 32
        \<and> zlib_deflate P (m_compressionLevel (m_compression a)) (m_windowBits (m_compression a)) data
            = DeflateStreamEnd z
      \<longrightarrow> (\<exists>entry'. addVirtualFile P path data options a m
                = Inr (True, a\<lparr>m_entries := m_entries a @ [entry'], m_modified := True\<rparr>, m)
             \<and> m_data entry' = z \<and> m_checksum entry' = sha256 P z \<and> isCompressed entry'))"
proof -
  have or1: "(w OR 1) AND 1 = (1 :: 32 word)" for w
    by (rule bit_word_eqI) (auto simp: bit_simps)
  show ?thesis
    using processEntry_checksum [of P entry options a m ok a' m']
    by (auto simp: addVirtualFile_def processEntry_def processEntry_encrypt_def processEntry_compress_def Let_def compress_ok VarcEntry_of_data_def
          setFlags_def setCompressedSize_def setData_def isCompressed_def EntryFlags_COMPRESSED_def or1)
qed

theorem C2_witness:
  "isOpen demo_open
   \<and> addVirtualFile demo_prims ''a'' [0x41] (demo_options True False []) demo_open demo_machine
       = Inr (True,
              demo_open\<lparr>m_entries :=
                 [\<lparr> m_relativePath = ''a'', m_type = FILE, m_originalSize = 3, m_compressedSize = 3,
                    m_offset = 0, m_fileType = 0, m_flags = 1,
                    m_checksum = sha256 demo_prims [0x1F, 0x8B, 0x41],
                    m_data = [0x1F, 0x8B, 0x41] \<rparr>],
                 m_modified := True\<rparr>,
              demo_machine)
   \<and> sha256 demo_prims [0x1F, 0x8B, 0x41] \<noteq> sha256 demo_prims [0x41]"
proof -
  have op: "isOpen demo_open" by (simp add: demo_open_def isOpen_def)
  have d: "zlib_deflate demo_prims (m_compressionLevel (m_compression demo_open))
             (m_windowBits (m_compression demo_open)) [0x41] = DeflateStreamEnd [0x1F, 0x8B, 0x41]"
    by (simp add: demo_prims_def)
  have ne: "sha256 demo_prims [0x1F, 0x8B, 0x41] \<noteq> sha256 demo_prims [0x41]"
    by (simp add: sha256_def demo_prims_def fixed_buffer_def HASH_SIZE_def)
  have run: "addVirtualFile demo_prims ''a'' [0x41] (demo_options True False []) demo_open demo_machine
       = Inr (True,
              demo_open\<lparr>m_entries :=
                 [\<lparr> m_relativePath = ''a'', m_type = FILE, m_originalSize = 3, m_compressedSize = 3,
                    m_offset = 0, m_fileType = 0, m_flags = 1,
                    m_checksum = sha256 demo_prims [0x1F, 0x8B, 0x41],
                    m_data = [0x1F, 0x8B, 0x41] \<rparr>],
                 m_modified := True\<rparr>,
              demo_machine)"
    by (simp add: addVirtualFile_def op processEntry_def processEntry_encrypt_def processEntry_compress_def demo_options_def compress_def
          demo_prims_def VarcEntry_of_data_def setData_def setFlags_def setCompressedSize_def
          demo_open_def Archive_new_def CompressionEngine_new_def detect_def sha256_def
          EntryFlags_COMPRESSED_def FileType_UNKNOWN_def isOpen_def)
  show ?thesis
    using op ne run
      C2_checksum_is_of_the_stored_bytes [where P = demo_prims and a = demo_open
        and options = "demo_options True False []" and data = "[0x41]" and path = "''a''"
        and z = "[0x1F, 0x8B, 0x41]"]
    by simp
qed

section \<open>Writing an archive\<close>

lemma memcpy_into_patch:
  "n = length src \<Longrightarrow> offset + n \<le> length dest \<Longrightarrow>
   memcpy_into dest offset src n = Inr (patch dest offset src)"
  by (simp add: memcpy_into_def patch_def)

lemma length_patch:
  "offset + length xs \<le> length buf \<Longrightarrow> length (patch buf offset xs) = length buf"
  by (simp add: patch_def)

lemma patch_patch:
  assumes "offset + length xs + length ys \<le> length buf"
  shows "patch (patch buf offset xs) (offset + length xs) ys = patch buf offset (xs @ ys)"
proof -
  have off: "offset \<le> length buf" using assms by simp
  then have la: "length (take offset buf) = offset" by simp
  have t: "take (offset + length xs) (take offset buf @ xs @ drop (offset + length xs) buf)
             = take offset buf @ xs"
    using la by (simp add: take_append)
  have d: "drop (offset + length xs + length ys) (take offset buf @ xs @ drop (offset + length xs) buf)
             = drop (offset + length xs + length ys) buf"
    using la by (simp add: add.commute add.left_commute)
  show ?thesis
    unfolding patch_def [of "take offset buf @ xs @ drop (offset + length xs) buf"]
      patch_def [of buf offset xs] patch_def [of buf offset "xs @ ys"]
    by (simp only: t d) (simp add: add.assoc)
qed

lemma length_EntryHeader_serialize: "length (EntryHeader_serialize h) = 26"
  by (simp add: EntryHeader_serialize_def length_be_encode)

lemma length_bytes_of_string: "length (bytes_of_string s) = length s"
  by (simp add: bytes_of_string_def)

lemma wf_entry_writable: "wf_entry e \<Longrightarrow> writable_entry e"
  by (simp add: wf_entry_def writable_entry_def MAX_PATH_LENGTH_def)

lemma wf_entries_writable: "list_all wf_entry es \<Longrightarrow> list_all writable_entry es"
  by (simp add: list_all_iff wf_entry_writable)

lemma entry_pathLength_writable:
  "writable_entry e \<Longrightarrow> entry_pathLength e = length (m_relativePath e)"
  by (simp add: writable_entry_def entry_pathLength_def)

lemma entry_pathLength_wf: "wf_entry e \<Longrightarrow> entry_pathLength e = length (m_relativePath e)"
  by (simp add: wf_entry_writable entry_pathLength_writable)

lemma length_entry_record:
  "writable_entry e \<Longrightarrow>
   length (entry_record e) = 26 + length (m_relativePath e) + length (m_data e) + 32"
  by (simp add: entry_record_def length_EntryHeader_serialize length_bytes_of_string writable_entry_def
        CHECKSUM_SIZE_def)

lemma write_entry_ok:
  assumes wf: "writable_entry e" and room: "offset + length (entry_record e) \<le> length buf"
  shows "write_entries (e # rest) buf offset =
           write_entries rest (patch buf offset (entry_record e)) (offset + length (entry_record e))"
proof -
  define h where "h = EntryHeader_serialize (entryHeader_of e)"
  define p where "p = bytes_of_string (m_relativePath e)"
  define d where "d = m_data e"
  define c where "c = m_checksum e"
  have lens: "length h = 26" "length p = entry_pathLength e" "length c = 32"
    using wf by (simp_all add: h_def p_def c_def length_EntryHeader_serialize length_bytes_of_string
                   entry_pathLength_writable writable_entry_def CHECKSUM_SIZE_def)
  have rec: "entry_record e = h @ p @ d @ c"
    by (simp add: entry_record_def h_def p_def d_def c_def)
  have room': "offset + length h + length p + length d + length c \<le> length buf"
    using room by (simp add: rec)
  have 1: "memcpy_into buf offset h (length h) = Inr (patch buf offset h)"
    using room' by (intro memcpy_into_patch) simp_all
  have l1: "length (patch buf offset h) = length buf"
    using room' by (intro length_patch) simp
  have pp2: "patch (patch buf offset h) (offset + length h) p = patch buf offset (h @ p)"
    using room' by (intro patch_patch) simp
  have 2: "memcpy_into (patch buf offset h) (offset + length h) p (entry_pathLength e)
             = Inr (patch buf offset (h @ p))"
    unfolding pp2 [symmetric] using room' lens(2) l1 by (intro memcpy_into_patch) simp_all
  have l2: "length (patch buf offset (h @ p)) = length buf"
    using room' by (intro length_patch) simp
  have pp3: "patch (patch buf offset (h @ p)) (offset + length (h @ p)) d = patch buf offset ((h @ p) @ d)"
    using room' by (intro patch_patch) simp
  have 3: "memcpy_into (patch buf offset (h @ p)) (offset + length (h @ p)) d (length d)
             = Inr (patch buf offset ((h @ p) @ d))"
    unfolding pp3 [symmetric] using room' l2 by (intro memcpy_into_patch) simp_all
  have l3: "length (patch buf offset ((h @ p) @ d)) = length buf"
    using room' by (intro length_patch) simp
  have pp4: "patch (patch buf offset ((h @ p) @ d)) (offset + length ((h @ p) @ d)) c
               = patch buf offset (((h @ p) @ d) @ c)"
    using room' by (intro patch_patch) simp
  have 4: "memcpy_into (patch buf offset ((h @ p) @ d)) (offset + length ((h @ p) @ d)) c 32
             = Inr (patch buf offset (((h @ p) @ d) @ c))"
    unfolding pp4 [symmetric] using room' lens(3) l3 by (intro memcpy_into_patch) simp_all
  have o1: "offset + length h + entry_pathLength e = offset + length (h @ p)"
    using lens by simp
  have o2: "offset + length (h @ p) + length d = offset + length ((h @ p) @ d)"
    by simp
  have o3: "offset + length ((h @ p) @ d) + 32 = offset + length (entry_record e)"
    using lens by (simp add: rec)
  have rec': "((h @ p) @ d) @ c = entry_record e"
    by (simp add: rec)
  show ?thesis
    apply (subst write_entries.simps)
    apply (fold h_def p_def d_def c_def)
    apply (simp only: Let_def 1 sum.case)
    apply (simp only: 2 sum.case o1)
    apply (simp only: 3 sum.case o2)
    apply (simp only: 4 sum.case o3 rec')
    done
qed

lemma patch_nil: "patch buf offset [] = buf"
  by (simp add: patch_def)

lemma write_entries_ok:
  assumes "list_all writable_entry es"
      and "offset + length (concat (map entry_record es)) \<le> length buf"
  shows "write_entries es buf offset = Inr (patch buf offset (concat (map entry_record es)))"
  using assms
proof (induction es arbitrary: buf offset)
  case Nil
  show ?case by (simp add: patch_nil)
next
  case (Cons e es)
  let ?r = "entry_record e"
  have wf: "writable_entry e" and wfs: "list_all writable_entry es"
    using Cons.prems(1) by simp_all
  have room: "offset + length ?r + length (concat (map entry_record es)) \<le> length buf"
    using Cons.prems(2) by (simp add: add.assoc)
  then have room1: "offset + length ?r \<le> length buf" by simp
  have len: "length (patch buf offset ?r) = length buf"
    using room1 by (rule length_patch)
  have "write_entries (e # es) buf offset
          = write_entries es (patch buf offset ?r) (offset + length ?r)"
    using wf room1 by (rule write_entry_ok)
  also have "\<dots> = Inr (patch (patch buf offset ?r) (offset + length ?r) (concat (map entry_record es)))"
    using wfs room len by (intro Cons.IH) simp_all
  also have "\<dots> = Inr (patch buf offset (?r @ concat (map entry_record es)))"
    using room by (simp add: patch_patch)
  finally show ?case by simp
qed

lemma size_t_add_small: "a + b < 2 ^ 64 \<Longrightarrow> size_t_add a b = a + b"
  by (simp add: size_t_add_def)

lemma totalSize_step:
  assumes "writable_entry e" and "t + length (entry_record e) < 2 ^ 64"
  shows "size_t_add (size_t_add (size_t_add (size_t_add t EntryHeader_fixedSize)
           (entry_pathLength e)) (unat (m_compressedSize e))) 32 = t + length (entry_record e)"
proof -
  have l: "length (entry_record e) = 26 + length (m_relativePath e) + length (m_data e) + 32"
    using assms(1) by (rule length_entry_record)
  have p: "entry_pathLength e = length (m_relativePath e)"
    using assms(1) by (rule entry_pathLength_writable)
  have c: "unat (m_compressedSize e) = length (m_data e)"
    using assms(1) by (simp add: writable_entry_def)
  show ?thesis
    using assms(2) unfolding l p c EntryHeader_fixedSize_def ENTRY_HEADER_SIZE_def
    by (simp add: size_t_add_small)
qed

lemma foldl_totalSize:
  assumes "list_all writable_entry es" and "t + length (concat (map entry_record es)) < 2 ^ 64"
  shows "foldl (\<lambda>totalSize entry.
              size_t_add (size_t_add (size_t_add (size_t_add totalSize EntryHeader_fixedSize)
                 (entry_pathLength entry)) (unat (m_compressedSize entry))) 32) t es
           = t + length (concat (map entry_record es))"
  using assms
proof (induction es arbitrary: t)
  case Nil
  show ?case by simp
next
  case (Cons e es)
  have wf: "writable_entry e" and wfs: "list_all writable_entry es"
    using Cons.prems(1) by simp_all
  have b: "t + length (entry_record e) + length (concat (map entry_record es)) < 2 ^ 64"
    using Cons.prems(2) by (simp add: add.assoc)
  then have b1: "t + length (entry_record e) < 2 ^ 64" by simp
  show ?case
    using Cons.IH [OF wfs b] by (simp add: totalSize_step [OF wf b1] add.assoc)
qed

lemma totalSize_of_wf:
  "list_all writable_entry es \<Longrightarrow> image_size es < 2 ^ 64 \<Longrightarrow> totalSize_of es = image_size es"
  unfolding totalSize_of_def image_size_def by (rule foldl_totalSize)

lemma updateHeader_entries [simp]: "m_entries (updateHeader a) = m_entries a"
  by (simp add: updateHeader_def)

lemma updateHeader_archiveData [simp]: "m_archiveData (updateHeader a) = m_archiveData a"
  by (simp add: updateHeader_def)

lemma writeArchive_ok:
  assumes wf: "list_all writable_entry (m_entries a)" and size: "image_size (m_entries a) < 2 ^ 64"
  shows "writeArchive a = Inr (True, (updateHeader a)\<lparr>m_archiveData := archive_image a\<rparr>)"
proof -
  define hd64 where "hd64 = take 64 (GlobalHeader_serialize (m_header (updateHeader a)))"
  define recs where "recs = concat (map entry_record (m_entries a))"
  define buf0 where "buf0 = vector_resize (m_archiveData a) (image_size (m_entries a))"
  have l0: "length buf0 = 64 + length recs"
    by (simp add: buf0_def vector_resize_def image_size_def recs_def)
  have lh: "length hd64 = 64"
    by (simp add: hd64_def length_GlobalHeader_serialize)
  have ge: "\<not> length (GlobalHeader_serialize (m_header (updateHeader a))) < 64"
    by (simp add: length_GlobalHeader_serialize)
  have 1: "memcpy_into buf0 0 (GlobalHeader_serialize (m_header (updateHeader a))) 64
             = Inr (patch buf0 0 hd64)"
    using l0 lh by (simp add: memcpy_into_def patch_def hd64_def length_GlobalHeader_serialize)
  have l1: "length (patch buf0 0 hd64) = length buf0"
    using l0 lh by (intro length_patch) simp
  have 2: "write_entries (m_entries a) (patch buf0 0 hd64) 64
             = Inr (patch (patch buf0 0 hd64) (0 + length hd64) recs)"
    using wf l0 l1 lh unfolding recs_def by (simp add: write_entries_ok)
  have 3: "patch (patch buf0 0 hd64) (0 + length hd64) recs = patch buf0 0 (hd64 @ recs)"
    using l0 lh by (intro patch_patch) simp
  have 4: "patch buf0 0 (hd64 @ recs) = hd64 @ recs"
    using l0 lh by (simp add: patch_def)
  show ?thesis
    unfolding writeArchive_def Let_def
    using totalSize_of_wf [OF wf size] ge
    apply (simp only: updateHeader_entries updateHeader_archiveData if_False)
    apply (fold buf0_def)
    apply (simp only: 1 sum.case 2 3 4)
    apply (simp add: archive_image_def hd64_def recs_def)
    done
qed

section \<open>Reading an archive\<close>

lemma subvec_at:
  "length pre = offset \<Longrightarrow> length xs = n \<Longrightarrow> subvec (pre @ xs @ post) offset n = xs"
  by (simp add: subvec_def)

lemma subvec_at0: "length xs = n \<Longrightarrow> subvec (xs @ post) 0 n = xs"
  by (simp add: subvec_def)

lemma char_of_byte_inverse: "char_of_byte (byte_of_char c) = c"
  by (simp add: char_of_byte_def byte_of_char_def unat_of_nat)

lemma string_of_bytes_inverse: "string_of_bytes (bytes_of_string s) = s"
  by (simp add: string_of_bytes_def bytes_of_string_def char_of_byte_inverse map_idI)

lemma EntryHeader_roundtrip:
  "EntryHeader_deserialize (h0 :: EntryHeader) (EntryHeader_serialize eh)
     = (True, eh\<lparr>pathLength := take_bit 16 (pathLength eh)\<rparr>)"
proof -
  define b2 where "b2 = be_encode 2 (pathLength eh)"
  define o8 where "o8 = be_encode 8 (originalSize eh)"
  define c8 where "c8 = be_encode 8 (compressedSize eh)"
  define t4 where "t4 = be_encode 4 (fileType eh)"
  define f4 where "f4 = be_encode 4 (entryFlags eh)"
  define data where "data = EntryHeader_serialize eh"
  have data: "data = b2 @ o8 @ c8 @ t4 @ f4"
    by (simp add: data_def EntryHeader_serialize_def two_bytes_encode b2_def o8_def c8_def t4_def f4_def)
  have lens: "length b2 = 2" "length o8 = 8" "length c8 = 8" "length t4 = 4" "length f4 = 4"
    by (simp_all add: b2_def o8_def c8_def t4_def f4_def length_be_encode)
  have len: "length data = 26" using lens by (simp add: data)
  have s0: "subvec data 0 2 = b2"
    unfolding data using lens by (intro subvec_at0) simp
  have s1: "subvec data 2 8 = o8"
    unfolding data using lens by (intro subvec_at) simp_all
  have s2: "subvec data 10 8 = c8"
    using subvec_at [of "b2 @ o8" 10 c8 8 "t4 @ f4"] lens by (simp add: data)
  have s3: "subvec data 18 4 = t4"
    using subvec_at [of "b2 @ o8 @ c8" 18 t4 4 f4] lens by (simp add: data)
  have s4: "subvec data 22 4 = f4"
    using subvec_at [of "b2 @ o8 @ c8 @ t4" 22 f4 4 "[]"] lens by (simp add: data)
  have p: "push_bit 8 (ucast (data ! 0)) OR ucast (data ! Suc 0) = (take_bit 16 (pathLength eh) :: 32 word)"
    using two_bytes_decode [of 0 data, where 'a = 32] len
    by (simp add: s0 b2_def be_decode_encode)
  have o: "(be_read ((!) data) 2 8 :: 64 word) = originalSize eh"
    using len by (simp add: be_read_subvec s1 o8_def be_decode_encode_id)
  have c: "(be_read ((!) data) 10 8 :: 64 word) = compressedSize eh"
    using len by (simp add: be_read_subvec s2 c8_def be_decode_encode_id)
  have t: "(be_read ((!) data) 18 4 :: 32 word) = fileType eh"
    using len by (simp add: be_read_subvec s3 t4_def be_decode_encode_id)
  have f: "(be_read ((!) data) 22 4 :: 32 word) = entryFlags eh"
    using len by (simp add: be_read_subvec s4 f4_def be_decode_encode_id)
  show ?thesis
    unfolding EntryHeader_deserialize_def data_def [symmetric]
    using len
    by (simp add: p o c t f EntryHeader_fixedSize_def ENTRY_HEADER_SIZE_def)
qed

lemma entryHeader_of_roundtrip:
  assumes "wf_entry e"
  shows "EntryHeader_deserialize EntryHeader_new (EntryHeader_serialize (entryHeader_of e))
           = (True, entryHeader_of e)"
proof -
  have "length (m_relativePath e) < 2 ^ 16"
    using assms by (simp add: wf_entry_def MAX_PATH_LENGTH_def)
  then have "take_bit 16 (of_nat (length (m_relativePath e)) :: 32 word) = of_nat (length (m_relativePath e))"
    by (simp add: take_bit_of_nat take_bit_nat_eq_self)
  then show ?thesis
    using assms
    by (simp add: EntryHeader_roundtrip entryHeader_of_def entry_pathLength_wf)
qed

lemma read_entry_step:
  assumes wf: "wf_entry e"
      and data: "data = pre @ entry_record e @ rest"
      and small: "length data < 2 ^ 64"
  shows "read_entries P data (Suc n) (length pre) acc
           = read_entries P data n (length (pre @ entry_record e)) (acc @ [reloaded P e])"
proof -
  define h where "h = EntryHeader_serialize (entryHeader_of e)"
  define p where "p = bytes_of_string (m_relativePath e)"
  define d where "d = m_data e"
  define c where "c = m_checksum e"
  have rec: "entry_record e = h @ p @ d @ c"
    by (simp add: entry_record_def h_def p_def d_def c_def)
  have lh: "length h = 26" by (simp add: h_def length_EntryHeader_serialize)
  have lp: "length p = length (m_relativePath e)" by (simp add: p_def length_bytes_of_string)
  have lc: "length c = 32" using wf by (simp add: c_def wf_entry_def CHECKSUM_SIZE_def)
  have ld: "unat (m_compressedSize e) = length d" using wf by (simp add: d_def wf_entry_def)
  have pl: "unat (pathLength (entryHeader_of e)) = length p"
  proof -
    have "length (m_relativePath e) < 2 ^ 32"
      using wf by (simp add: wf_entry_def MAX_PATH_LENGTH_def)
    then show ?thesis
      using wf by (simp add: entryHeader_of_def entry_pathLength_wf lp unat_of_nat)
  qed
  have len: "length data = length pre + 26 + length p + length d + 32 + length rest"
    by (simp add: data rec lh lc)
  have s1: "subvec data (length pre) 26 = h"
    unfolding data rec using lh subvec_at [of pre "length pre" h 26 "p @ d @ c @ rest"] by simp
  have s2: "subvec data (length pre + 26) (length p) = p"
    unfolding data rec using lh subvec_at [of "pre @ h" "length pre + 26" p "length p" "d @ c @ rest"] by simp
  have s3: "subvec data (length pre + 26 + length p) (length d) = d"
    unfolding data rec
    using lh subvec_at [of "pre @ h @ p" "length pre + 26 + length p" d "length d" "c @ rest"] by simp
  have s4: "subvec data (length pre + 26 + length p + length d) 32 = c"
    unfolding data rec
    using lh lc subvec_at [of "pre @ h @ p @ d" "length pre + 26 + length p + length d" c 32 rest] by simp
  have hd: "EntryHeader_deserialize EntryHeader_new h = (True, entryHeader_of e)"
    unfolding h_def using wf by (rule entryHeader_of_roundtrip)
  have sz: "size_t_add (length pre + 26 + length p) (length d) = length pre + 26 + length p + length d"
    using small len by (intro size_t_add_small) simp
  have fields: "originalSize (entryHeader_of e) = m_originalSize e"
    "compressedSize (entryHeader_of e) = m_compressedSize e"
    "fileType (entryHeader_of e) = m_fileType e"
    "entryFlags (entryHeader_of e) = m_flags e"
    by (simp_all add: entryHeader_of_def)
  have path: "string_of_bytes p = m_relativePath e"
    by (simp add: p_def string_of_bytes_inverse)
  have off: "length pre + 26 + length p + length d + 32 = length (pre @ entry_record e)"
    by (simp add: rec lh lc)
  have lrec: "length (entry_record e) = 58 + length p + length (m_data e)"
    by (simp add: rec lh lc d_def)
  show ?thesis
    apply (subst read_entries.simps)
    apply (simp only: EntryHeader_fixedSize_def ENTRY_HEADER_SIZE_def)
    apply (simp add: Let_def s1 hd pl s2 ld sz s3 s4 len fields path del: read_entries.simps)
    apply (simp add: reloaded_def d_def c_def lrec add.assoc add.left_commute del: read_entries.simps)
    done
qed

lemma read_entries_records:
  assumes "list_all wf_entry es"
      and "data = pre @ concat (map entry_record es) @ post"
      and "length data < 2 ^ 64"
  shows "read_entries P data (length es) (length pre) acc = Inr (None, acc @ map (reloaded P) es)"
  using assms
proof (induction es arbitrary: pre acc)
  case Nil
  show ?case by simp
next
  case (Cons e es)
  have wf: "wf_entry e" and wfs: "list_all wf_entry es"
    using Cons.prems(1) by simp_all
  have d1: "data = pre @ entry_record e @ (concat (map entry_record es) @ post)"
    using Cons.prems(2) by simp
  have d2: "data = (pre @ entry_record e) @ concat (map entry_record es) @ post"
    using Cons.prems(2) by simp
  have "read_entries P data (length (e # es)) (length pre) acc
          = read_entries P data (length es) (length (pre @ entry_record e)) (acc @ [reloaded P e])"
    using read_entry_step [OF wf d1 Cons.prems(3)] by simp
  also have "\<dots> = Inr (None, (acc @ [reloaded P e]) @ map (reloaded P) es)"
    using wfs d2 Cons.prems(3) by (rule Cons.IH)
  finally show ?case by simp
qed

text \<open>The header: what is written is its first 64 bytes.\<close>

lemma take_64_GlobalHeader_serialize:
  assumes "wf_header h"
  shows "take 64 (GlobalHeader_serialize h)
           = VARC_SIGNATURE @ be_encode 2 (version h) @ be_encode 2 (flags h)
             @ be_encode 4 (fileCount h) @ salt h @ iv h @ take 4 (be_encode 8 (reserved h))"
proof -
  have l: "length (salt h) = 32" "length (iv h) = 16" "signature h = VARC_SIGNATURE"
    using assms by (simp_all add: wf_header_def SALT_SIZE_def IV_SIZE_def)
  have ls: "length VARC_SIGNATURE = 4"
    by (simp add: VARC_SIGNATURE_def bytes_of_string_def)
  show ?thesis
    by (simp add: GlobalHeader_serialize_wf [OF l(1) l(2)] l ls length_be_encode)
qed

lemma GlobalHeader_roundtrip:
  assumes wf: "wf_header h"
  shows "\<exists>r. GlobalHeader_deserialize beyond h0 (take 64 (GlobalHeader_serialize h))
           = (True, h0\<lparr> signature := signature h, version := version h, flags := flags h,
                        fileCount := fileCount h, salt := salt h, iv := iv h, reserved := r \<rparr>)"
proof -
  define data where "data = take 64 (GlobalHeader_serialize h)"
  define v2 where "v2 = be_encode 2 (version h)"
  define f2 where "f2 = be_encode 2 (flags h)"
  define c4 where "c4 = be_encode 4 (fileCount h)"
  define r4 where "r4 = take 4 (be_encode 8 (reserved h))"
  have l: "length (salt h) = 32" "length (iv h) = 16" "signature h = VARC_SIGNATURE"
    using wf by (simp_all add: wf_header_def SALT_SIZE_def IV_SIZE_def)
  have ls: "length VARC_SIGNATURE = 4"
    by (simp add: VARC_SIGNATURE_def bytes_of_string_def)
  have lens: "length v2 = 2" "length f2 = 2" "length c4 = 4" "length r4 = 4"
    by (simp_all add: v2_def f2_def c4_def r4_def length_be_encode)
  have data: "data = VARC_SIGNATURE @ v2 @ f2 @ c4 @ salt h @ iv h @ r4"
    unfolding data_def v2_def f2_def c4_def r4_def using wf by (rule take_64_GlobalHeader_serialize)
  have len: "length data = 64"
    by (simp add: data ls lens l)
  have s0: "subvec data 0 4 = VARC_SIGNATURE"
    unfolding data using ls by (intro subvec_at0) simp
  have s1: "subvec data 4 2 = v2"
    unfolding data using ls lens by (intro subvec_at) simp_all
  have s2: "subvec data 6 2 = f2"
    using subvec_at [of "VARC_SIGNATURE @ v2" 6 f2 2 "c4 @ salt h @ iv h @ r4"] ls lens
    by (simp add: data)
  have s3: "subvec data 8 4 = c4"
    using subvec_at [of "VARC_SIGNATURE @ v2 @ f2" 8 c4 4 "salt h @ iv h @ r4"] ls lens
    by (simp add: data)
  have s4: "subvec data 12 32 = salt h"
    using subvec_at [of "VARC_SIGNATURE @ v2 @ f2 @ c4" 12 "salt h" 32 "iv h @ r4"] ls lens l
    by (simp add: data)
  have s5: "subvec data 44 16 = iv h"
    using subvec_at [of "VARC_SIGNATURE @ v2 @ f2 @ c4 @ salt h" 44 "iv h" 16 r4] ls lens l
    by (simp add: data)
  have "GlobalHeader_deserialize beyond h0 data =
     (True, h0\<lparr> signature := subvec data 0 4,
               version := be_decode (subvec data 4 2),
               flags := be_decode (subvec data 6 2),
               fileCount := be_decode (subvec data 8 4),
               salt := subvec data 12 32,
               iv := subvec data 44 16,
               reserved := be_decode (map (vec_at data beyond) [60..<68]) \<rparr>)"
    using len s0 by (intro GlobalHeader_deserialize_fields) simp_all
  then have "GlobalHeader_deserialize beyond h0 data =
     (True, h0\<lparr> signature := signature h, version := version h, flags := flags h,
               fileCount := fileCount h, salt := salt h, iv := iv h,
               reserved := be_decode (map (vec_at data beyond) [60..<68]) \<rparr>)"
    by (simp only: s0 s1 s2 s3 s4 s5 v2_def f2_def c4_def l(3)) (simp add: be_decode_encode_id)
  then show ?thesis
    unfolding data_def [symmetric] by blast
qed

lemma length_take_64_serialize: "length (take 64 (GlobalHeader_serialize h)) = 64"
  by (simp add: length_GlobalHeader_serialize)

lemma readArchive_image:
  assumes wfs: "list_all wf_entry es"
      and wfh: "wf_header h"
      and cnt: "fileCount h = of_nat (length es)" "length es < 2 ^ 32"
      and data: "m_archiveData a = take 64 (GlobalHeader_serialize h) @ concat (map entry_record es)"
      and small: "image_size es < 2 ^ 64"
      and pw: "GlobalHeader_isEncrypted h \<Longrightarrow> password \<noteq> [] \<and> IV_SIZE \<le> length (entropy m)"
  shows "\<exists>a' m'.
           readArchive P a m password = Inr (True, a', m')
           \<and> m_entries a' = map (reloaded P) es
           \<and> flags (m_header a') = flags h \<and> fileCount (m_header a') = fileCount h
           \<and> salt (m_header a') = salt h \<and> iv (m_header a') = iv h
           \<and> signature (m_header a') = signature h \<and> version (m_header a') = version h
           \<and> m_filepath a' = m_filepath a \<and> m_archiveData a' = m_archiveData a
           \<and> files m' = files m \<and> creatable m' = creatable m"
proof -
  define hd64 where "hd64 = take 64 (GlobalHeader_serialize h)"
  have lh: "length hd64 = 64" unfolding hd64_def by (rule length_take_64_serialize)
  have d: "m_archiveData a = hd64 @ concat (map entry_record es) @ []"
    by (simp add: data hd64_def)
  have len: "length (m_archiveData a) = image_size es"
    by (simp add: d lh image_size_def)
  have s: "subvec (m_archiveData a) 0 64 = hd64"
    unfolding d using lh by (intro subvec_at0) simp
  obtain r where r: "GlobalHeader_deserialize (behind_buffer m) (m_header a) hd64
           = (True, (m_header a)\<lparr> signature := signature h, version := version h, flags := flags h,
                        fileCount := fileCount h, salt := salt h, iv := iv h, reserved := r \<rparr>)"
    unfolding hd64_def using GlobalHeader_roundtrip [OF wfh] by blast
  define h' where "h' = (m_header a)\<lparr> signature := signature h, version := version h, flags := flags h,
                        fileCount := fileCount h, salt := salt h, iv := iv h, reserved := r \<rparr>"
  have valid: "GlobalHeader_isValid h'"
    using wfh by (simp add: h'_def GlobalHeader_isValid_def wf_header_def)
  have enc: "GlobalHeader_isEncrypted h' = GlobalHeader_isEncrypted h"
    by (simp add: h'_def GlobalHeader_isEncrypted_def)
  have n: "unat (fileCount h') = length es" "unat (fileCount h) = length es"
    using cnt by (simp_all add: h'_def unat_of_nat)
  have rd: "read_entries P (m_archiveData a) (length es) 64 [] = Inr (None, [] @ map (reloaded P) es)"
    using read_entries_records [OF wfs d, of P "[]"] small len lh by simp
  have ge: "\<not> length (m_archiveData a) < 64"
    by (simp add: len image_size_def)
  show ?thesis
  proof (cases "GlobalHeader_isEncrypted h")
    case False
    show ?thesis
      unfolding readArchive_def Let_def
      apply (simp only: ge if_False s r [folded h'_def] prod.case not_True_eq_False valid enc False
                simp_thms)
      apply (simp add: n rd h'_def)
      done
  next
    case True
    from pw [OF True] have p: "password \<noteq> []" and e: "IV_SIZE \<le> length (entropy m)" by simp_all
    show ?thesis
      unfolding readArchive_def Let_def
      apply (simp only: ge if_False s r [folded h'_def] prod.case not_True_eq_False valid enc True
                simp_thms p)
      apply (simp add: initializeFromPassword_ok [OF p e] n rd h'_def)
      done
  qed
qed

lemma updateHeader_wf_header: "wf_header (m_header a) \<Longrightarrow> wf_header (m_header (updateHeader a))"
  by (simp add: updateHeader_def wf_header_def)

lemma updateHeader_fileCount: "fileCount (m_header (updateHeader a)) = of_nat (length (m_entries a))"
  by (simp add: updateHeader_def)

lemma save_ok:
  assumes wfs: "list_all writable_entry (m_entries a)" and size: "image_size (m_entries a) < 2 ^ 64"
      and out: "out = (if f = [] then m_filepath a else f)" "out \<noteq> []" "creatable m out"
  shows "save a m f =
           Inr (True,
                (updateHeader a)\<lparr>m_archiveData := archive_image a, m_filepath := out, m_modified := False\<rparr>,
                m\<lparr>files := (files m)(out \<mapsto> archive_image a)\<rparr>)"
  using out by (simp add: save_def Let_def writeArchive_ok [OF wfs size])

lemma open_saved:
  assumes wfs: "list_all wf_entry (m_entries a)" and size: "image_size (m_entries a) < 2 ^ 64"
      and wfh: "wf_header (m_header a)"
      and cnt: "length (m_entries a) < 2 ^ 32"
      and fil: "files m out = Some (archive_image a)"
      and clean: "\<not> m_modified a1"
      and pw: "GlobalHeader_isEncrypted (m_header (updateHeader a))
                 \<Longrightarrow> password \<noteq> [] \<and> IV_SIZE \<le> length (entropy m)"
  shows "\<exists>a2 m2. open_archive P a1 m out password = Inr (True, a2, m2)
           \<and> m_entries a2 = map (reloaded P) (m_entries a)
           \<and> fileCount (m_header a2) = of_nat (length (m_entries a))
           \<and> flags (m_header a2) = flags (m_header (updateHeader a))
           \<and> m_loaded a2 \<and> \<not> m_modified a2
           \<and> files m2 = files m \<and> creatable m2 = creatable m"
proof -
  define a2 where "a2 = a1\<lparr> m_filepath := [], m_entries := [], m_archiveData := [],
                  m_header := GlobalHeader_new, m_modified := False, m_loaded := False,
                  m_errorMessage := [] \<rparr>\<lparr>m_filepath := out, m_archiveData := []\<rparr>
                  \<lparr>m_archiveData := archive_image a\<rparr>"
  have d: "m_archiveData a2 = take 64 (GlobalHeader_serialize (m_header (updateHeader a)))
             @ concat (map entry_record (m_entries a))"
    by (simp add: a2_def archive_image_def)
  have "\<exists>a' m'.
           readArchive P a2 m password = Inr (True, a', m')
           \<and> m_entries a' = map (reloaded P) (m_entries a)
           \<and> flags (m_header a') = flags (m_header (updateHeader a))
           \<and> fileCount (m_header a') = fileCount (m_header (updateHeader a))
           \<and> salt (m_header a') = salt (m_header (updateHeader a))
           \<and> iv (m_header a') = iv (m_header (updateHeader a))
           \<and> signature (m_header a') = signature (m_header (updateHeader a))
           \<and> version (m_header a') = version (m_header (updateHeader a))
           \<and> m_filepath a' = m_filepath a2 \<and> m_archiveData a' = m_archiveData a2
           \<and> files m' = files m \<and> creatable m' = creatable m"
    using wfs updateHeader_wf_header [OF wfh] updateHeader_fileCount cnt d size pw
    by (rule readArchive_image)
  then obtain a' m' where r: "readArchive P a2 m password = Inr (True, a', m')"
      "m_entries a' = map (reloaded P) (m_entries a)"
      "flags (m_header a') = flags (m_header (updateHeader a))"
      "fileCount (m_header a') = fileCount (m_header (updateHeader a))"
      "files m' = files m" "creatable m' = creatable m"
    by blast
  have step: "open_archive P a1 m out password =
      (case readArchive P a2 m password of
         Inl e \<Rightarrow> Inl e
       | Inr (ok, a3, m3) \<Rightarrow>
           if \<not> ok then Inr (False, a3, m3)
           else Inr (True, a3\<lparr>m_loaded := True, m_modified := False\<rparr>, m3))"
    using clean fil by (simp add: open_archive_def close_def Let_def a2_def)
  show ?thesis
    unfolding step using r by (simp add: updateHeader_fileCount)
qed

lemma read_entries_length:
  "read_entries P data n offset acc = Inr (None, es) \<Longrightarrow> length es = length acc + n"
proof (induction n arbitrary: offset acc)
  case 0
  then show ?case by simp
next
  case (Suc n)
  from Suc.prems show ?case
    by (auto simp: Let_def split: if_splits prod.splits dest!: Suc.IH)
qed

lemma readArchive_count:
  assumes "readArchive P a m password = Inr (True, a', m')"
  shows "unat (fileCount (m_header a')) = length (m_entries a')"
  using assms
  by (auto simp: readArchive_def Let_def split: if_splits prod.splits sum.splits option.splits
           dest!: read_entries_length)

lemma open_archive_count:
  assumes "open_archive P a m f password = Inr (True, a', m')"
  shows "unat (fileCount (m_header a')) = length (m_entries a')"
  using assms
  by (auto simp: open_archive_def Let_def split: if_splits prod.splits sum.splits option.splits
           dest!: readArchive_count)

section \<open>What the calls keep true\<close>

lemma length_sha256: "length (sha256 P d) = 32"
  by (simp add: sha256_def fixed_buffer_def HASH_SIZE_def)

lemma stored_ok_of_data: "stored_ok (VarcEntry_of_data P path d t)"
  by (simp add: stored_ok_def VarcEntry_of_data_def length_sha256 CHECKSUM_SIZE_def)

lemma stored_ok_setData: "stored_ok (setData P d e)"
  by (simp add: stored_ok_def setData_def length_sha256 CHECKSUM_SIZE_def)

lemma stored_ok_setFlags: "stored_ok (setFlags f e) = stored_ok e"
  by (simp add: stored_ok_def setFlags_def)

lemma compress_size:
  "cr_success (compress P eng d) \<Longrightarrow>
   cr_compressedSize (compress P eng d) = of_nat (length (compressedData (compress P eng d)))"
  by (auto simp: compress_def Let_def split: deflate_outcome.splits if_splits)

lemma stored_ok_compressed:
  "cr_success (compress P eng d) \<Longrightarrow>
   stored_ok (setCompressedSize (cr_compressedSize (compress P eng d))
                (setData P (compressedData (compress P eng d)) e))"
  by (simp add: stored_ok_def setCompressedSize_def setData_def compress_size length_sha256
        CHECKSUM_SIZE_def)

lemma generateSalt_length:
  "generateSalt n ent = Inr (slt, ent') \<Longrightarrow> length slt = n"
  by (auto simp: generateSalt_def RAND_bytes_def split: if_splits)

lemma generateIV_length:
  "generateIV ent = Inr (v, ent') \<Longrightarrow> length v = 16"
  by (auto simp: generateIV_def RAND_bytes_def IV_SIZE_def split: if_splits)

lemma array_memcpy_length:
  "length src = n \<Longrightarrow> length dest = n \<Longrightarrow> length (array_memcpy dest src n) = n"
  by (simp add: array_memcpy_def)

lemma path_setData: "m_relativePath (setData P d e) = m_relativePath e"
  by (simp add: setData_def)

lemma path_setFlags: "m_relativePath (setFlags fl e) = m_relativePath e"
  by (simp add: setFlags_def)

lemma path_setCompressedSize: "m_relativePath (setCompressedSize n e) = m_relativePath e"
  by (simp add: setCompressedSize_def)

lemma processEntry_compress_ok:
  assumes "stored_ok entry"
  shows "stored_ok (processEntry_compress P entry options a)
         \<and> m_relativePath (processEntry_compress P entry options a) = m_relativePath entry"
  using assms
  by (simp add: processEntry_compress_def Let_def stored_ok_setFlags stored_ok_compressed
        path_setData path_setFlags path_setCompressedSize)

lemma wf_header_encrypted:
  assumes "wf_header h" and "length slt = SALT_SIZE" and "length v = 16"
  shows "wf_header (h\<lparr> salt := array_memcpy (salt h) slt (length slt),
                        iv := array_memcpy (iv h) v 16,
                        flags := flags h OR ArchiveFlags_ENCRYPTED \<rparr>)"
  using assms by (simp add: wf_header_def array_memcpy_def SALT_SIZE_def IV_SIZE_def)

lemma crypto_setup_ok:
  assumes run: "(case generateSalt SALT_SIZE (entropy m) of
                Inl e \<Rightarrow> Inl e
              | Inr (slt, ent1) \<Rightarrow>
             (case initializeFromPassword P pw slt (m_crypto a) ent1 of
                Inl (e, c, ent) \<Rightarrow> Inl e
              | Inr (c, ent2) \<Rightarrow>
             (case generateIV ent2 of
                Inl e \<Rightarrow> Inl e
              | Inr (v, ent3) \<Rightarrow>
                  Inr (a\<lparr> m_crypto := c,
                          m_header := (m_header a)
                            \<lparr> salt := array_memcpy (salt (m_header a)) slt (length slt),
                              iv := array_memcpy (iv (m_header a)) v 16,
                              flags := flags (m_header a) OR ArchiveFlags_ENCRYPTED \<rparr> \<rparr>,
                       m\<lparr>entropy := ent3\<rparr>)))) = Inr (a1, m1)"
      and inv: "archive_ok f a"
  shows "archive_ok f a1 \<and> m_entries a1 = m_entries a
         \<and> files m1 = files m \<and> creatable m1 = creatable m"
proof -
  from run obtain slt ent1 where 1: "generateSalt SALT_SIZE (entropy m) = Inr (slt, ent1)"
    by (auto split: sum.splits)
  from run 1 obtain c ent2 where 2: "initializeFromPassword P pw slt (m_crypto a) ent1 = Inr (c, ent2)"
    by (auto split: sum.splits)
  from run 1 2 obtain v ent3 where 3: "generateIV ent2 = Inr (v, ent3)"
    by (auto split: sum.splits)
  have h: "wf_header ((m_header a)
             \<lparr> salt := array_memcpy (salt (m_header a)) slt (length slt),
               iv := array_memcpy (iv (m_header a)) v 16,
               flags := flags (m_header a) OR ArchiveFlags_ENCRYPTED \<rparr>)"
    using inv generateSalt_length [OF 1] generateIV_length [OF 3]
    by (intro wf_header_encrypted) (simp_all add: archive_ok_def)
  show ?thesis
    using run inv h by (auto simp: 1 2 3 archive_ok_def)
qed

lemma processEntry_encrypt_ok:
  assumes run: "processEntry_encrypt P entry options a m = Inr (entry2, a2, m2)"
      and e: "stored_ok entry" and inv: "archive_ok f a"
  shows "archive_ok f a2 \<and> m_entries a2 = m_entries a
         \<and> files m2 = files m \<and> creatable m2 = creatable m
         \<and> stored_ok entry2 \<and> m_relativePath entry2 = m_relativePath entry"
proof (cases "opt_encrypt options \<and> opt_password options \<noteq> []")
  case False
  then show ?thesis using run e inv by (auto simp: processEntry_encrypt_def)
next
  case True
  show ?thesis
  proof (cases "isInitialized (m_crypto a)")
    case init: True
    then show ?thesis
      using run e inv True
      by (auto simp: processEntry_encrypt_def Let_def stored_ok_setFlags stored_ok_setData
            path_setData path_setFlags split: sum.splits)
  next
    case ninit: False
    from run True ninit obtain a1 m1 where
      s: "(case generateSalt SALT_SIZE (entropy m) of
                Inl e \<Rightarrow> Inl e
              | Inr (slt, ent1) \<Rightarrow>
             (case initializeFromPassword P (opt_password options) slt (m_crypto a) ent1 of
                Inl (e, c, ent) \<Rightarrow> Inl e
              | Inr (c, ent2) \<Rightarrow>
             (case generateIV ent2 of
                Inl e \<Rightarrow> Inl e
              | Inr (v, ent3) \<Rightarrow>
                  Inr (a\<lparr> m_crypto := c,
                          m_header := (m_header a)
                            \<lparr> salt := array_memcpy (salt (m_header a)) slt (length slt),
                              iv := array_memcpy (iv (m_header a)) v 16,
                              flags := flags (m_header a) OR ArchiveFlags_ENCRYPTED \<rparr> \<rparr>,
                       m\<lparr>entropy := ent3\<rparr>)))) = Inr (a1, m1)"
      and rest: "(case encrypt P (m_crypto a1) (m_data entry) of
               Inl e \<Rightarrow> Inl e
             | Inr encrypted \<Rightarrow>
                 let entry1 = setData P encrypted entry
                 in Inr (setFlags (m_flags entry1 OR EntryFlags_ENCRYPTED) entry1, a1, m1))
             = Inr (entry2, a2, m2)"
      unfolding processEntry_encrypt_def Let_def
      by (simp only: True ninit if_True if_False not_False_eq_True simp_thms split: sum.splits) auto
    from crypto_setup_ok [OF s inv] rest show ?thesis
      by (auto simp: Let_def stored_ok_setFlags stored_ok_setData path_setData path_setFlags
            split: sum.splits)
  qed
qed

lemma processEntry_ok:
  assumes run: "processEntry P entry options a m = Inr (ok, a', m')"
      and e: "stored_ok entry" and inv: "archive_ok f a"
  shows "archive_ok f a' \<and> files m' = files m \<and> creatable m' = creatable m
         \<and> (\<exists>entry'. m_entries a' = m_entries a @ [entry'] \<and> stored_ok entry'
               \<and> m_relativePath entry' = m_relativePath entry)"
proof -
  from run obtain entry2 a2 m2 where
    1: "processEntry_encrypt P entry options a m = Inr (entry2, a2, m2)"
    and 2: "a' = a2\<lparr> m_entries := m_entries a2 @ [processEntry_compress P entry2 options a2],
                  m_modified := True \<rparr>" "m' = m2"
    by (auto simp: processEntry_def split: sum.splits)
  from processEntry_encrypt_ok [OF 1 e inv] processEntry_compress_ok [of entry2 P options a2]
  show ?thesis
    by (auto simp: 2 archive_ok_def)
qed

lemma list_all_erase_first: "list_all Q xs \<Longrightarrow> list_all Q (erase_first p xs)"
  by (induction xs) auto

lemma remaining_entries_subset:
  "remaining_entries es pattern = Some (kept, n) \<Longrightarrow> list_all Q es \<Longrightarrow> list_all Q kept"
  by (induction es arbitrary: kept n) (auto split: option.splits if_splits)

lemma apply_op_ok:
  assumes "apply_op P op a m = Inr (a', m')" and "archive_ok f a"
  shows "archive_ok f a' \<and> files m' = files m \<and> creatable m' = creatable m"
proof (cases op)
  case (AddVirtual path data options)
  show ?thesis
  proof (cases "isOpen a")
    case True
    with assms AddVirtual obtain ok where
      "processEntry P (VarcEntry_of_data P path data FILE) options a m = Inr (ok, a', m')"
      by (auto simp: addVirtualFile_def split: sum.splits)
    from processEntry_ok [OF this stored_ok_of_data assms(2)] show ?thesis by simp
  next
    case False
    with assms AddVirtual show ?thesis
      by (auto simp: addVirtualFile_def archive_ok_def)
  qed
next
  case (AddFile filepath options)
  show ?thesis
  proof (cases "isOpen a")
    case True
    with assms AddFile obtain ok entry where
      "createEntryFromPath P m filepath = Inr entry"
      "processEntry P entry options a m = Inr (ok, a', m')"
      by (auto simp: addFile_def split: sum.splits)
    moreover from this(1) have "stored_ok entry"
      by (auto simp: createEntryFromPath_def stored_ok_of_data split: option.splits)
    ultimately show ?thesis
      using processEntry_ok [of P entry options a m ok a' m' f] assms(2) by simp
  next
    case False
    with assms AddFile show ?thesis
      by (auto simp: addFile_def archive_ok_def)
  qed
next
  case (RemoveEntry path)
  with assms show ?thesis
    by (auto simp: removeEntry_def archive_ok_def list_all_erase_first split: option.splits)
next
  case (RemoveEntries pattern)
  with assms obtain kept n where
    r: "remaining_entries (m_entries a) pattern = Some (kept, n)"
    and a': "a' = a\<lparr>m_entries := kept, m_modified := (if 0 < n then True else m_modified a)\<rparr>"
    and m': "m' = m"
    by (auto simp: removeEntries_def split: option.splits)
  have "list_all stored_ok kept"
    using remaining_entries_subset [OF r] assms(2) by (simp add: archive_ok_def)
  with assms(2) a' m' show ?thesis
    by (simp add: archive_ok_def)
next
  case ClearEntries
  with assms show ?thesis
    by (auto simp: clearEntries_def archive_ok_def)
qed

lemma apply_ops_ok:
  assumes "apply_ops P ops a m = Inr (a', m')" and "archive_ok f a"
  shows "archive_ok f a' \<and> files m' = files m \<and> creatable m' = creatable m"
  using assms
proof (induction ops arbitrary: a m)
  case Nil
  then show ?case by simp
next
  case (Cons op ops)
  from Cons.prems(1) obtain a1 m1 where
    1: "apply_op P op a m = Inr (a1, m1)" and 2: "apply_ops P ops a1 m1 = Inr (a', m')"
    by (auto split: sum.splits)
  from apply_op_ok [OF 1 Cons.prems(2)] Cons.IH [OF 2] show ?case by simp
qed

lemma length_data_lt_image_size: "e \<in> set es \<Longrightarrow> length (m_data e) < image_size es"
proof (induction es)
  case Nil
  then show ?case by simp
next
  case (Cons x xs)
  then show ?case
    by (auto simp: image_size_def entry_record_def)
qed

lemma wf_entries:
  assumes "list_all stored_ok es" and "paths_fit es" and "image_size es < 2 ^ 64"
  shows "list_all wf_entry es"
proof -
  have "wf_entry e" if e: "e \<in> set es" for e
  proof -
    have "length (m_data e) < 2 ^ 64"
      using length_data_lt_image_size [OF e] assms(3) by simp
    then have "unat (of_nat (length (m_data e)) :: 64 word) = length (m_data e)"
      by (simp add: unat_of_nat)
    then show ?thesis
      using assms(1,2) e by (auto simp: wf_entry_def stored_ok_def paths_fit_def list_all_iff)
  qed
  then show ?thesis by (simp add: list_all_iff)
qed

text \<open>Saving an archive and opening the file again.\<close>

lemma save_then_open:
  assumes ok: "archive_ok f a" and f: "f \<noteq> []" and cr: "creatable m f"
      and fit: "paths_fit (m_entries a)" and size: "image_size (m_entries a) < 2 ^ 64"
      and cnt: "length (m_entries a) < 2 ^ 32"
      and pw: "GlobalHeader_isEncrypted (m_header (updateHeader a))
                 \<Longrightarrow> password \<noteq> [] \<and> IV_SIZE \<le> length (entropy m)"
  shows "\<exists>a1 m1 a2 m2.
           save a m [] = Inr (True, a1, m1)
           \<and> open_archive P a1 m1 f password = Inr (True, a2, m2)
           \<and> m_entries a2 = map (reloaded P) (m_entries a)
           \<and> fileCount (m_header a2) = of_nat (length (m_entries a))
           \<and> flags (m_header a2) = flags (m_header (updateHeader a))
           \<and> m_loaded a2
           \<and> files m2 = (files m)(f \<mapsto> archive_image a) \<and> creatable m2 = creatable m"
proof -
  have wfs: "list_all wf_entry (m_entries a)"
    using ok fit size by (intro wf_entries) (simp_all add: archive_ok_def)
  have wfh: "wf_header (m_header a)" and fp: "m_filepath a = f"
    using ok by (simp_all add: archive_ok_def)
  define a1 where "a1 = (updateHeader a)\<lparr>m_archiveData := archive_image a, m_filepath := f,
                            m_modified := False\<rparr>"
  define m1 where "m1 = m\<lparr>files := (files m)(f \<mapsto> archive_image a)\<rparr>"
  have s: "save a m [] = Inr (True, a1, m1)"
    unfolding a1_def m1_def using f cr fp by (intro save_ok [OF wf_entries_writable [OF wfs] size]) simp_all
  have pw1: "GlobalHeader_isEncrypted (m_header (updateHeader a))
                 \<Longrightarrow> password \<noteq> [] \<and> IV_SIZE \<le> length (entropy m1)"
    using pw by (simp add: m1_def)
  have "\<exists>a2 m2. open_archive P a1 m1 f password = Inr (True, a2, m2)
           \<and> m_entries a2 = map (reloaded P) (m_entries a)
           \<and> fileCount (m_header a2) = of_nat (length (m_entries a))
           \<and> flags (m_header a2) = flags (m_header (updateHeader a))
           \<and> m_loaded a2 \<and> \<not> m_modified a2
           \<and> files m2 = files m1 \<and> creatable m2 = creatable m1"
    using wfs size wfh cnt _ _ pw1
    by (rule open_saved) (simp_all add: m1_def a1_def)
  then show ?thesis
    using s by (auto simp: m1_def)
qed

lemma GlobalHeader_deserialize_wf:
  assumes "GlobalHeader_deserialize beyond h data = (True, h')"
  shows "wf_header h'"
  using assms
  by (auto simp: GlobalHeader_deserialize_def Let_def wf_header_def length_subvec
                 SALT_SIZE_def IV_SIZE_def split: if_splits)

lemma read_entries_stored_ok:
  "read_entries P data n offset acc = Inr (r, es) \<Longrightarrow> list_all stored_ok acc
     \<Longrightarrow> list_all stored_ok es"
proof (induction n arbitrary: offset acc)
  case 0
  then show ?case by simp
next
  case (Suc n)
  from Suc.prems show ?case
    by (auto simp: Let_def stored_ok_setData split: if_splits prod.splits dest!: Suc.IH)
qed

lemma readArchive_ok:
  assumes "readArchive P a m password = Inr (True, a', m')"
  shows "list_all stored_ok (m_entries a') \<and> wf_header (m_header a')
         \<and> m_filepath a' = m_filepath a"
  using assms
  by (auto simp: readArchive_def Let_def split: if_splits prod.splits sum.splits option.splits
           dest!: read_entries_stored_ok GlobalHeader_deserialize_wf)

lemma open_archive_ok:
  assumes "open_archive P a m f password = Inr (True, a', m')"
  shows "archive_ok f a'"
  using assms
  by (auto simp: open_archive_def Let_def archive_ok_def
           split: if_splits prod.splits sum.splits option.splits
           dest!: readArchive_ok)

lemma create_new:
  "create Archive_new m f =
     Inr (True, Archive_new\<lparr>m_filepath := f, m_modified := True, m_loaded := True\<rparr>, m)"
  by (simp add: create_def close_def Archive_new_def)

lemma GlobalHeader_new_wf: "wf_header GlobalHeader_new"
  by (simp add: wf_header_def GlobalHeader_new_def)

lemma create_new_ok:
  assumes "create Archive_new m f = Inr (ok, a, m')"
  shows "ok \<and> archive_ok f a \<and> m' = m \<and> m_entries a = []"
  using assms unfolding create_new
  by (auto simp: archive_ok_def Archive_new_def GlobalHeader_new_wf)

section \<open>The file count\<close>

lemma upt_0_8: "[0..<8] = [0, 1, 2, 3, 4, 5, 6, 7 :: nat]"
  by code_simp

lemma be_read_x:
  "(be_read ((!) (replicate 26 (0x78 :: byte))) 2 8 :: 64 word) = 0x7878787878787878"
  "(be_read ((!) (replicate 26 (0x78 :: byte))) 10 8 :: 64 word) = 0x7878787878787878"
  "(be_read ((!) (replicate 26 (0x78 :: byte))) 18 4 :: 32 word) = 0x78787878"
  "(be_read ((!) (replicate 26 (0x78 :: byte))) 22 4 :: 32 word) = 0x78787878"
  by (simp_all add: be_read_def upt_0_8 upt_0_4)

lemma deserialize_x26:
  "EntryHeader_deserialize h (replicate 26 (0x78 :: byte))
     = (True, h\<lparr> pathLength := 0x7878, originalSize := 0x7878787878787878,
                 compressedSize := 0x7878787878787878, fileType := 0x78787878,
                 entryFlags := 0x78787878 \<rparr>)"
  by (simp add: EntryHeader_deserialize_def EntryHeader_fixedSize_def ENTRY_HEADER_SIZE_def
        be_read_x)

text \<open>
  A path of 65536 bytes. Its length is written as \<open>00 00\<close>, and all of its bytes
  follow: \<^verbatim>\<open>readArchive\<close> takes the entry to have no path, reads its data and its
  checksum from the bytes of the path, and the header of the next entry from the 26
  bytes after them.
\<close>

lemma read_long_path:
  assumes p: "m_relativePath e1 = replicate 65536 CHR ''x''"
      and d: "m_data e1 = [b]" and cs: "m_compressedSize e1 = 1"
      and ck: "length (m_checksum e1) = 32"
      and data: "data = hd64 @ entry_record e1 @ rest"
      and lh: "length hd64 = 64" and lr: "length rest = 60"
  shows "\<exists>e. read_entries P data 2 64 [] = Inr (Some ''Unexpected end of archive (data)'', [e])
           \<and> m_relativePath e = [] \<and> m_data e = [0x78]"
proof -
  define h1 where "h1 = EntryHeader_serialize (entryHeader_of e1)"
  define x :: byte where "x = 0x78"
  have l1: "length h1 = 26" by (simp add: h1_def length_EntryHeader_serialize)
  have bp: "bytes_of_string (m_relativePath e1) = replicate 65536 x"
    by (simp add: p bytes_of_string_def byte_of_char_def x_def)
  have split: "replicate 65536 x = [x] @ replicate 32 x @ replicate 26 x @ replicate 65477 x"
    by (simp flip: replicate_add replicate_Suc)
  define post where "post = replicate 65477 x @ [b] @ m_checksum e1 @ rest"
  have data': "data = hd64 @ h1 @ [x] @ replicate 32 x @ replicate 26 x @ post"
    by (simp add: data entry_record_def h1_def [symmetric] bp split d post_def)
  have len: "length data = 65719"
    by (simp add: data' lh l1 post_def ck lr)
  have s1: "subvec data 64 26 = h1"
    unfolding data' using lh l1 by (rule subvec_at)
  have s3: "subvec data 90 1 = [x]"
    using subvec_at [of "hd64 @ h1" 90 "[x]" 1 "replicate 32 x @ replicate 26 x @ post"]
    by (simp add: data' lh l1)
  have s4: "subvec data 91 32 = replicate 32 x"
    using subvec_at [of "hd64 @ h1 @ [x]" 91 "replicate 32 x" 32 "replicate 26 x @ post"]
    by (simp add: data' lh l1)
  have s5: "subvec data 123 26 = replicate 26 x"
    using subvec_at [of "hd64 @ h1 @ [x] @ replicate 32 x" 123 "replicate 26 x" 26 post]
    by (simp add: data' lh l1)
  have pl: "take_bit 16 (pathLength (entryHeader_of e1)) = 0"
    by (simp add: entryHeader_of_def entry_pathLength_def p)
  have d1: "EntryHeader_deserialize EntryHeader_new h1
              = (True, (entryHeader_of e1)\<lparr>pathLength := 0\<rparr>)"
    unfolding h1_def EntryHeader_roundtrip pl ..
  have c1: "compressedSize (entryHeader_of e1) = 1"
    by (simp add: entryHeader_of_def cs)
  have second: "read_entries P data (Suc 0) 123 acc
                  = Inr (Some ''Unexpected end of archive (data)'', acc)" for acc
    by (simp add: Let_def EntryHeader_fixedSize_def ENTRY_HEADER_SIZE_def len s5
          deserialize_x26 x_def size_t_add_def)
  have s3': "subvec data 90 (Suc 0) = [x]"
    using s3 by simp
  define e where "e = setData P [x]
            (setChecksum (replicate 32 x)
              (setFlags (entryFlags (entryHeader_of e1))
                (setCompressedSize 1
                  (VarcEntry_of_sizes [] FILE
                    (originalSize (entryHeader_of e1))
                    (fileType (entryHeader_of e1))))))"
  have "read_entries P data (Suc (Suc 0)) 64 [] = read_entries P data (Suc 0) 123 [e]"
    apply (subst read_entries.simps(2))
    apply (simp add: Let_def EntryHeader_fixedSize_def ENTRY_HEADER_SIZE_def len s1 d1 c1 s3' s4
             size_t_add_def subvec_def [of data 90 0] string_of_bytes_def e_def
             del: read_entries.simps)
    done
  then have "read_entries P data 2 64 [] = Inr (Some ''Unexpected end of archive (data)'', [e])"
    unfolding second by (simp add: numeral_2_eq_2)
  moreover have "m_relativePath e = []" and "m_data e = [0x78]"
    by (simp_all add: e_def x_def setData_def setChecksum_def setFlags_def setCompressedSize_def
          VarcEntry_of_sizes_def)
  ultimately show ?thesis by blast
qed

lemma readArchive_long_path:
  assumes wfh: "wf_header h" and cnt: "fileCount h = 2" and ne: "\<not> GlobalHeader_isEncrypted h"
      and p: "m_relativePath e1 = replicate 65536 CHR ''x''"
      and d: "m_data e1 = [b]" and cs: "m_compressedSize e1 = 1"
      and ck: "length (m_checksum e1) = 32"
      and data: "m_archiveData a = take 64 (GlobalHeader_serialize h) @ entry_record e1 @ rest"
      and lr: "length rest = 60"
  shows "\<exists>a' m'. readArchive P a m password = Inr (False, a', m')
           \<and> fileCount (m_header a') = 2 \<and> length (m_entries a') = 1"
proof -
  define hd64 where "hd64 = take 64 (GlobalHeader_serialize h)"
  have lh: "length hd64 = 64" unfolding hd64_def by (rule length_take_64_serialize)
  have dat: "m_archiveData a = hd64 @ entry_record e1 @ rest"
    by (simp add: data hd64_def)
  have s: "subvec (m_archiveData a) 0 64 = hd64"
    unfolding dat using lh by (intro subvec_at0) simp
  obtain r where r: "GlobalHeader_deserialize (behind_buffer m) (m_header a) hd64
           = (True, (m_header a)\<lparr> signature := signature h, version := version h, flags := flags h,
                        fileCount := fileCount h, salt := salt h, iv := iv h, reserved := r \<rparr>)"
    unfolding hd64_def using GlobalHeader_roundtrip [OF wfh] by blast
  define h' where "h' = (m_header a)\<lparr> signature := signature h, version := version h, flags := flags h,
                        fileCount := fileCount h, salt := salt h, iv := iv h, reserved := r \<rparr>"
  have valid: "GlobalHeader_isValid h'"
    using wfh by (simp add: h'_def GlobalHeader_isValid_def wf_header_def)
  have enc: "\<not> GlobalHeader_isEncrypted h'"
    using ne by (simp add: h'_def GlobalHeader_isEncrypted_def)
  have n: "unat (fileCount h') = 2" "fileCount h' = 2"
    using cnt by (simp_all add: h'_def)
  obtain e where rd: "read_entries P (m_archiveData a) 2 64 []
                        = Inr (Some ''Unexpected end of archive (data)'', [e])"
    using read_long_path [OF p d cs ck dat lh lr] by blast
  have ge: "\<not> length (m_archiveData a) < 64"
    by (simp add: dat lh)
  show ?thesis
    unfolding readArchive_def Let_def
    apply (simp only: ge if_False s r [folded h'_def] prod.case not_True_eq_False valid enc
              simp_thms)
    apply (simp add: n rd)
    done
qed

text \<open>
  The whole run: two entries are added, the first with a path of 65536 bytes; \<^verbatim>\<open>save\<close>
  returns true; \<^verbatim>\<open>open\<close> returns false and leaves a header that counts two files,
  with one entry in the list.
\<close>

lemma long_path_breaks_reopen:
  assumes f: "f \<noteq> []" and cr: "creatable m f"
  shows "\<exists>a0 a m1 a1 m2 a2 m3.
           create Archive_new m f = Inr (True, a0, m)
           \<and> apply_ops P demo_long_ops a0 m = Inr (a, m1)
           \<and> length (m_entries a) = 2
           \<and> save a m1 [] = Inr (True, a1, m2)
           \<and> open_archive P a1 m2 f password = Inr (False, a2, m3)
           \<and> fileCount (m_header a2) = 2 \<and> length (m_entries a2) = 1"
proof -
  define a0 where "a0 = Archive_new\<lparr>m_filepath := f, m_modified := True, m_loaded := True\<rparr>"
  define e1 where "e1 = VarcEntry_of_data P demo_long_path [0x41] FILE"
  define e2 where "e2 = VarcEntry_of_data P ''b'' [0x42] FILE"
  define a where "a = a0\<lparr>m_entries := [e1, e2], m_modified := True\<rparr>"
  have cre: "create Archive_new m f = Inr (True, a0, m)"
    by (simp add: create_new a0_def)
  have ops: "apply_ops P demo_long_ops a0 m = Inr (a, m)"
    by (simp add: demo_long_ops_def addVirtualFile_def isOpen_def processEntry_plain
          demo_options_def a0_def a_def e1_def e2_def Archive_new_def)
  have fields: "m_relativePath e1 = replicate 65536 CHR ''x''" "m_data e1 = [0x41]"
      "m_compressedSize e1 = 1" "length (m_checksum e1) = 32"
      "m_relativePath e2 = ''b''" "m_data e2 = [0x42]"
      "m_compressedSize e2 = 1" "length (m_checksum e2) = 32"
    by (simp_all add: e1_def e2_def VarcEntry_of_data_def demo_long_path_def length_sha256)
  have wr: "list_all writable_entry (m_entries a)"
    by (simp add: a_def writable_entry_def fields CHECKSUM_SIZE_def)
  have l2: "length (entry_record e2) = 60"
    by (simp add: entry_record_def length_EntryHeader_serialize length_bytes_of_string fields)
  have size: "image_size (m_entries a) < 2 ^ 64"
    by (simp add: a_def image_size_def l2 entry_record_def [of e1] length_EntryHeader_serialize
          length_bytes_of_string fields)
  have hd: "m_header a = GlobalHeader_new" and fp: "m_filepath a = f"
    by (simp_all add: a_def a0_def Archive_new_def)
  have wfh: "wf_header (m_header a)" and fl: "flags (m_header a) = 0"
    by (simp_all add: hd GlobalHeader_new_wf) (simp add: GlobalHeader_new_def)
  define a1 where "a1 = (updateHeader a)\<lparr>m_archiveData := archive_image a, m_filepath := f,
                            m_modified := False\<rparr>"
  define m2 where "m2 = m\<lparr>files := (files m)(f \<mapsto> archive_image a)\<rparr>"
  have sv: "save a m [] = Inr (True, a1, m2)"
    unfolding a1_def m2_def using f cr fp by (intro save_ok [OF wr size]) simp_all
  define b where "b = a1\<lparr> m_filepath := [], m_entries := [], m_archiveData := [],
                  m_header := GlobalHeader_new, m_modified := False, m_loaded := False,
                  m_errorMessage := [] \<rparr>\<lparr>m_filepath := f, m_archiveData := []\<rparr>
                  \<lparr>m_archiveData := archive_image a\<rparr>"
  have img: "m_archiveData b = take 64 (GlobalHeader_serialize (m_header (updateHeader a)))
             @ entry_record e1 @ entry_record e2"
    by (simp add: b_def archive_image_def a_def)
  have cnt: "fileCount (m_header (updateHeader a)) = 2"
    by (simp add: updateHeader_fileCount a_def)
  have ne: "\<not> GlobalHeader_isEncrypted (m_header (updateHeader a))"
    using fl by (simp add: updateHeader_def GlobalHeader_isEncrypted_def a_def)
  have "\<exists>a' m'. readArchive P b m2 password = Inr (False, a', m')
           \<and> fileCount (m_header a') = 2 \<and> length (m_entries a') = 1"
    using updateHeader_wf_header [OF wfh] cnt ne fields(1,2,3,4) img l2
    by (rule readArchive_long_path)
  then obtain a' m' where rd: "readArchive P b m2 password = Inr (False, a', m')"
    and res: "fileCount (m_header a') = 2" "length (m_entries a') = 1"
    by blast
  have step: "open_archive P a1 m2 f password =
      (case readArchive P b m2 password of
         Inl e \<Rightarrow> Inl e
       | Inr (ok, a3, m3) \<Rightarrow>
           if \<not> ok then Inr (False, a3, m3)
           else Inr (True, a3\<lparr>m_loaded := True, m_modified := False\<rparr>, m3))"
    by (simp add: open_archive_def close_def Let_def b_def a1_def m2_def)
  have opn: "open_archive P a1 m2 f password = Inr (False, a', m')"
    unfolding step by (simp add: rd)
  have "length (m_entries a) = 2" by (simp add: a_def)
  with cre ops sv opn res show ?thesis by blast
qed

lemma updateHeader_clears:
  "m_entries a = [] \<Longrightarrow>
     \<not> GlobalHeader_isEncrypted (m_header (updateHeader a))
     \<and> \<not> GlobalHeader_isCompressed (m_header (updateHeader a))"
proof -
  have "((w AND NOT x) AND NOT y) AND x = 0" for w x y :: "16 word"
    by (rule bit_word_eqI) (auto simp: bit_simps)
  then show "m_entries a = [] \<Longrightarrow> ?thesis"
    by (simp add: updateHeader_def GlobalHeader_isEncrypted_def GlobalHeader_isCompressed_def)
qed

lemma updateHeader_keeps:
  "m_entries a \<noteq> [] \<Longrightarrow> flags (m_header (updateHeader a)) = flags (m_header a)"
  by (simp add: updateHeader_def)

lemma started_ok:
  assumes "create Archive_new m0 f = Inr (True, a0, m1)
           \<or> open_archive P b0 m0 f pw0 = Inr (True, a0, m1)"
  shows "archive_ok f a0"
  using assms create_new_ok open_archive_ok by blast

text \<open>
  When every path fits. After \<^verbatim>\<open>create\<close> or \<^verbatim>\<open>open\<close> and any sequence of
  \<^verbatim>\<open>addVirtualFile\<close>, \<^verbatim>\<open>addFile\<close>, \<^verbatim>\<open>removeEntry\<close>, \<^verbatim>\<open>removeEntries\<close> and
  \<^verbatim>\<open>clearEntries\<close> that return, \<^verbatim>\<open>save\<close> and \<^verbatim>\<open>open\<close> both return true, with as many
  entries as before and that number in the header: for paths of at most 65535 bytes, fewer
  than \<open>2\<^sup>3\<^sup>2\<close> entries, fewer than \<open>2\<^sup>6\<^sup>4\<close> bytes, a file that can be written and, when
  the header is ENCRYPTED, a password that is not empty and a random generator that
  delivers the 16 bytes \<^verbatim>\<open>open\<close> draws.
\<close>

lemma file_count_kept:
  "fileCount (m_header (updateHeader a)) = of_nat (length (m_entries a))
   \<and> (m_entries a = [] \<longrightarrow>
        \<not> GlobalHeader_isEncrypted (m_header (updateHeader a))
        \<and> \<not> GlobalHeader_isCompressed (m_header (updateHeader a)))
   \<and> (m_entries a \<noteq> [] \<longrightarrow> flags (m_header (updateHeader a)) = flags (m_header a))
   \<and> (open_archive P b m f password = Inr (True, a', m') \<longrightarrow>
        unat (fileCount (m_header a')) = length (m_entries a'))
   \<and> ((create Archive_new m0 f = Inr (True, a0, m1)
          \<or> open_archive P b0 m0 f pw0 = Inr (True, a0, m1))
        \<and> apply_ops P ops a0 m1 = Inr (a, m)
        \<and> f \<noteq> [] \<and> creatable m f
        \<and> paths_fit (m_entries a) \<and> image_size (m_entries a) < 2 ^ 64
        \<and> length (m_entries a) < 2 ^ 32
        \<and> (GlobalHeader_isEncrypted (m_header (updateHeader a))
             \<longrightarrow> password \<noteq> [] \<and> IV_SIZE \<le> length (entropy m))
      \<longrightarrow> (\<exists>a1 m2 a2 m3.
             save a m [] = Inr (True, a1, m2)
             \<and> open_archive P a1 m2 f password = Inr (True, a2, m3)
             \<and> length (m_entries a2) = length (m_entries a)
             \<and> unat (fileCount (m_header a2)) = length (m_entries a2)))"
proof (intro conjI impI)
  show "fileCount (m_header (updateHeader a)) = of_nat (length (m_entries a))"
    by (rule updateHeader_fileCount)
next
  assume "m_entries a = []"
  then show "\<not> GlobalHeader_isEncrypted (m_header (updateHeader a))"
    and "\<not> GlobalHeader_isCompressed (m_header (updateHeader a))"
    by (simp_all add: updateHeader_clears)
next
  assume "m_entries a \<noteq> []"
  then show "flags (m_header (updateHeader a)) = flags (m_header a)"
    by (rule updateHeader_keeps)
next
  assume "open_archive P b m f password = Inr (True, a', m')"
  then show "unat (fileCount (m_header a')) = length (m_entries a')"
    by (rule open_archive_count)
next
  assume asm: "(create Archive_new m0 f = Inr (True, a0, m1)
          \<or> open_archive P b0 m0 f pw0 = Inr (True, a0, m1))
        \<and> apply_ops P ops a0 m1 = Inr (a, m)
        \<and> f \<noteq> [] \<and> creatable m f
        \<and> paths_fit (m_entries a) \<and> image_size (m_entries a) < 2 ^ 64
        \<and> length (m_entries a) < 2 ^ 32
        \<and> (GlobalHeader_isEncrypted (m_header (updateHeader a))
             \<longrightarrow> password \<noteq> [] \<and> IV_SIZE \<le> length (entropy m))"
  then have "archive_ok f a0" and ops: "apply_ops P ops a0 m1 = Inr (a, m)"
    using started_ok by blast+
  then have ok: "archive_ok f a"
    using apply_ops_ok by blast
  have "\<exists>a1 m2 a2 m3.
           save a m [] = Inr (True, a1, m2)
           \<and> open_archive P a1 m2 f password = Inr (True, a2, m3)
           \<and> m_entries a2 = map (reloaded P) (m_entries a)
           \<and> fileCount (m_header a2) = of_nat (length (m_entries a))
           \<and> flags (m_header a2) = flags (m_header (updateHeader a))
           \<and> m_loaded a2
           \<and> files m3 = (files m)(f \<mapsto> archive_image a) \<and> creatable m3 = creatable m"
    using ok asm by (intro save_then_open) simp_all
  then obtain a1 m2 a2 m3 where
    s: "save a m [] = Inr (True, a1, m2)"
    and opn: "open_archive P a1 m2 f password = Inr (True, a2, m3)"
    and es: "m_entries a2 = map (reloaded P) (m_entries a)"
    by blast
  from es have "length (m_entries a2) = length (m_entries a)" by simp
  with s opn open_archive_count [OF opn]
  show "\<exists>a1 m2 a2 m3.
             save a m [] = Inr (True, a1, m2)
             \<and> open_archive P a1 m2 f password = Inr (True, a2, m3)
             \<and> length (m_entries a2) = length (m_entries a)
             \<and> unat (fileCount (m_header a2)) = length (m_entries a2)"
    by blast
qed

lemma demo_create: "create Archive_new demo_machine ''demo.varc'' = Inr (True, demo_open, demo_machine)"
  by (simp add: create_new demo_open_def)

lemma matchesPattern_one_char:
  assumes "c \<noteq> CHR ''*''" and "c \<noteq> CHR ''?''"
  shows "matchesPattern str [c] = Some (str = [c])"
proof (cases str)
  case Nil
  then show ?thesis
    unfolding matchesPattern_def by (subst matchesPattern_loop.simps) simp
next
  case (Cons x xs)
  have last: "matchesPattern_loop str [c] 1 1 = Some (xs = [])"
    by (subst matchesPattern_loop.simps) (simp add: Cons)
  show ?thesis
    unfolding matchesPattern_def
    apply (subst matchesPattern_loop.simps)
    using assms last
    apply (auto simp: Cons)
    done
qed

lemma demo_ops_run: "apply_ops demo_prims demo_ops demo_open demo_machine = Inr (demo_after_ops, demo_machine)"
  by (simp add: demo_ops_def demo_after_ops_def demo_open_def addVirtualFile_def isOpen_def
        Archive_new_def processEntry_plain demo_options_def removeEntry_def findEntry_def
        compress_def demo_prims_def Let_def setFlags_def setCompressedSize_def setData_def
        VarcEntry_of_data_def CompressionEngine_new_def clearEntries_def removeEntries_def
        matchesPattern_one_char)

lemma demo_after_ops_fits:
  "paths_fit (m_entries demo_after_ops) \<and> image_size (m_entries demo_after_ops) < 2 ^ 64
   \<and> length (m_entries demo_after_ops) = 1
   \<and> \<not> GlobalHeader_isEncrypted (m_header (updateHeader demo_after_ops))"
  by (simp add: demo_after_ops_def paths_fit_def image_size_def entry_record_def
        length_EntryHeader_serialize length_bytes_of_string length_sha256
        VarcEntry_of_data_def MAX_PATH_LENGTH_def updateHeader_def demo_open_def
        Archive_new_def GlobalHeader_new_def GlobalHeader_isEncrypted_def)

text \<open>
  C5. The claim: after every sequence of add and remove calls followed by save and
  reopen, the file count of the header equals the length of the entry list;
  \<^verbatim>\<open>updateHeader\<close>, which \<^verbatim>\<open>save\<close> calls, sets the file count to that length and
  clears the ENCRYPTED and COMPRESSED bits of the header when the list is empty.

  The second half holds, and the first does not. \<^verbatim>\<open>EntryHeader::serialize\<close> writes the
  length of a path in two bytes, \<^verbatim>\<open>writeArchive\<close> copies the whole path, and no call
  compares a path with \<^verbatim>\<open>MAX_PATH_LENGTH\<close>. After \<^verbatim>\<open>create\<close> and two calls of
  \<^verbatim>\<open>addVirtualFile\<close>, the first with a path of 65536 bytes, \<^verbatim>\<open>save\<close> returns true and
  \<^verbatim>\<open>open\<close> returns false: it reads the second entry header out of the bytes of the path.
  The header then counts two files and the list holds one entry. This is the last part
  of the theorem, for every file name that can be written and every password.

  The parts before it say what holds: what \<^verbatim>\<open>updateHeader\<close> does to the count, to the
  two bits of an empty archive and to the flags of any other; that every \<^verbatim>\<open>open\<close> that
  returns true leaves a count equal to the number of entries; and that the count is kept
  over \<^verbatim>\<open>save\<close> and \<^verbatim>\<open>open\<close> when every path has at most 65535 bytes.
\<close>

theorem C5_file_count_breaks_on_a_long_path:
  "fileCount (m_header (updateHeader a)) = of_nat (length (m_entries a))
   \<and> (m_entries a = [] \<longrightarrow>
        \<not> GlobalHeader_isEncrypted (m_header (updateHeader a))
        \<and> \<not> GlobalHeader_isCompressed (m_header (updateHeader a)))
   \<and> (m_entries a \<noteq> [] \<longrightarrow> flags (m_header (updateHeader a)) = flags (m_header a))
   \<and> (open_archive P b m f password = Inr (True, a', m') \<longrightarrow>
        unat (fileCount (m_header a')) = length (m_entries a'))
   \<and> ((create Archive_new m0 f = Inr (True, a0, m1)
          \<or> open_archive P b0 m0 f pw0 = Inr (True, a0, m1))
        \<and> apply_ops P ops a0 m1 = Inr (a, m)
        \<and> f \<noteq> [] \<and> creatable m f
        \<and> paths_fit (m_entries a) \<and> image_size (m_entries a) < 2 ^ 64
        \<and> length (m_entries a) < 2 ^ 32
        \<and> (GlobalHeader_isEncrypted (m_header (updateHeader a))
             \<longrightarrow> password \<noteq> [] \<and> IV_SIZE \<le> length (entropy m))
      \<longrightarrow> (\<exists>a1 m2 a2 m3.
             save a m [] = Inr (True, a1, m2)
             \<and> open_archive P a1 m2 f password = Inr (True, a2, m3)
             \<and> length (m_entries a2) = length (m_entries a)
             \<and> unat (fileCount (m_header a2)) = length (m_entries a2)))
   \<and> (g \<noteq> [] \<and> creatable n g \<longrightarrow>
        (\<exists>c0 c n1 c1 n2 c2 n3.
           create Archive_new n g = Inr (True, c0, n)
           \<and> apply_ops P demo_long_ops c0 n = Inr (c, n1)
           \<and> length (m_entries c) = 2
           \<and> save c n1 [] = Inr (True, c1, n2)
           \<and> open_archive P c1 n2 g pw = Inr (False, c2, n3)
           \<and> fileCount (m_header c2) = 2 \<and> length (m_entries c2) = 1))"
proof -
  have kept: "fileCount (m_header (updateHeader a)) = of_nat (length (m_entries a))
   \<and> (m_entries a = [] \<longrightarrow>
        \<not> GlobalHeader_isEncrypted (m_header (updateHeader a))
        \<and> \<not> GlobalHeader_isCompressed (m_header (updateHeader a)))
   \<and> (m_entries a \<noteq> [] \<longrightarrow> flags (m_header (updateHeader a)) = flags (m_header a))
   \<and> (open_archive P b m f password = Inr (True, a', m') \<longrightarrow>
        unat (fileCount (m_header a')) = length (m_entries a'))
   \<and> ((create Archive_new m0 f = Inr (True, a0, m1)
          \<or> open_archive P b0 m0 f pw0 = Inr (True, a0, m1))
        \<and> apply_ops P ops a0 m1 = Inr (a, m)
        \<and> f \<noteq> [] \<and> creatable m f
        \<and> paths_fit (m_entries a) \<and> image_size (m_entries a) < 2 ^ 64
        \<and> length (m_entries a) < 2 ^ 32
        \<and> (GlobalHeader_isEncrypted (m_header (updateHeader a))
             \<longrightarrow> password \<noteq> [] \<and> IV_SIZE \<le> length (entropy m))
      \<longrightarrow> (\<exists>a1 m2 a2 m3.
             save a m [] = Inr (True, a1, m2)
             \<and> open_archive P a1 m2 f password = Inr (True, a2, m3)
             \<and> length (m_entries a2) = length (m_entries a)
             \<and> unat (fileCount (m_header a2)) = length (m_entries a2)))"
    by (rule file_count_kept)
  have broken: "(g \<noteq> [] \<and> creatable n g \<longrightarrow>
        (\<exists>c0 c n1 c1 n2 c2 n3.
           create Archive_new n g = Inr (True, c0, n)
           \<and> apply_ops P demo_long_ops c0 n = Inr (c, n1)
           \<and> length (m_entries c) = 2
           \<and> save c n1 [] = Inr (True, c1, n2)
           \<and> open_archive P c1 n2 g pw = Inr (False, c2, n3)
           \<and> fileCount (m_header c2) = 2 \<and> length (m_entries c2) = 1))"
    using long_path_breaks_reopen [of g n P pw] by blast
  from kept broken show ?thesis
    by (elim conjE) (intro conjI; assumption)
qed

theorem C5_long_path_witness:
  "create Archive_new demo_machine ''demo.varc'' = Inr (True, demo_open, demo_machine)
   \<and> apply_ops demo_prims demo_ops demo_open demo_machine = Inr (demo_after_ops, demo_machine)
   \<and> (\<exists>a1 m2 a2 m3.
         save demo_after_ops demo_machine [] = Inr (True, a1, m2)
         \<and> open_archive demo_prims a1 m2 ''demo.varc'' [] = Inr (True, a2, m3)
         \<and> length (m_entries a2) = 1
         \<and> unat (fileCount (m_header a2)) = 1)
   \<and> (\<exists>c n1 c1 n2 c2 n3.
         apply_ops demo_prims demo_long_ops demo_open demo_machine = Inr (c, n1)
         \<and> length (m_entries c) = 2
         \<and> save c n1 [] = Inr (True, c1, n2)
         \<and> open_archive demo_prims c1 n2 ''demo.varc'' [] = Inr (False, c2, n3)
         \<and> fileCount (m_header c2) = 2 \<and> length (m_entries c2) = 1)"
proof -
  have cr: "creatable demo_machine ''demo.varc''"
    by (simp add: demo_machine_def)
  note C5 = C5_file_count_breaks_on_a_long_path [where a = demo_after_ops and m = demo_machine
             and P = demo_prims and f = "''demo.varc''" and ops = demo_ops
             and ?a0.0 = demo_open and ?m0.0 = demo_machine and ?m1.0 = demo_machine
             and password = "[]" and g = "''demo.varc''" and n = demo_machine and pw = "[]"]
  have "\<exists>a1 m2 a2 m3.
         save demo_after_ops demo_machine [] = Inr (True, a1, m2)
         \<and> open_archive demo_prims a1 m2 ''demo.varc'' [] = Inr (True, a2, m3)
         \<and> length (m_entries a2) = length (m_entries demo_after_ops)
         \<and> unat (fileCount (m_header a2)) = length (m_entries a2)"
    by (rule C5 [THEN conjunct2, THEN conjunct2, THEN conjunct2, THEN conjunct2,
                 THEN conjunct1, THEN mp])
       (use demo_after_ops_fits demo_create demo_ops_run cr in simp)
  moreover have "\<exists>c0 c n1 c1 n2 c2 n3.
         create Archive_new demo_machine ''demo.varc'' = Inr (True, c0, demo_machine)
         \<and> apply_ops demo_prims demo_long_ops c0 demo_machine = Inr (c, n1)
         \<and> length (m_entries c) = 2
         \<and> save c n1 [] = Inr (True, c1, n2)
         \<and> open_archive demo_prims c1 n2 ''demo.varc'' [] = Inr (False, c2, n3)
         \<and> fileCount (m_header c2) = 2 \<and> length (m_entries c2) = 1"
    by (rule C5 [THEN conjunct2, THEN conjunct2, THEN conjunct2, THEN conjunct2,
                 THEN conjunct2, THEN mp])
       (simp add: cr)
  ultimately show ?thesis
    using demo_after_ops_fits by (auto simp: demo_create demo_ops_run)
qed

section \<open>The round trip\<close>

lemma reloaded_fields:
  "m_relativePath (reloaded P e) = m_relativePath e"
  "m_data (reloaded P e) = m_data e"
  "m_originalSize (reloaded P e) = of_nat (length (m_data e))"
  "m_flags (reloaded P e) = m_flags e"
  by (simp_all add: reloaded_def setData_def setChecksum_def setFlags_def setCompressedSize_def
        VarcEntry_of_sizes_def)

lemma extractFile_reloaded:
  assumes "m_entries a = [reloaded P e]" and "m_relativePath e = path" and "creatable m out"
  shows "extractFile a m path out password = (True, a, m\<lparr>files := (files m)(out \<mapsto> m_data e)\<rparr>)"
  using assms by (simp add: extractFile_def findEntry_def reloaded_fields Let_def)

text \<open>
  The round trip gives back the bytes that \<^verbatim>\<open>processEntry\<close> stored in the entry.
\<close>

lemma round_trip_stored:
  assumes add: "addVirtualFile P path data options
                  (Archive_new\<lparr>m_filepath := f, m_modified := True, m_loaded := True\<rparr>) m
                = Inr (True, a2, m2)"
      and f: "f \<noteq> []" and crf: "creatable m f" and cro: "creatable m out"
      and path: "length path \<le> MAX_PATH_LENGTH"
      and size: "list_all (\<lambda>entry. length (m_data entry) < 2 ^ 63) (m_entries a2)"
      and pw: "GlobalHeader_isEncrypted (m_header a2)
                 \<Longrightarrow> password \<noteq> [] \<and> IV_SIZE \<le> length (entropy m2)"
  shows "\<exists>entry. m_entries a2 = [entry]
           \<and> round_trip P m f path data options password out = Inr (Some (m_data entry))"
proof -
  define a0 where "a0 = Archive_new\<lparr>m_filepath := f, m_modified := True, m_loaded := True\<rparr>"
  have ok0: "archive_ok f a0" and e0: "m_entries a0 = []" and open0: "isOpen a0"
    by (simp_all add: a0_def archive_ok_def Archive_new_def GlobalHeader_new_wf isOpen_def)
  have cr: "create Archive_new m f = Inr (True, a0, m)"
    by (simp add: create_new a0_def)
  have add': "addVirtualFile P path data options a0 m = Inr (True, a2, m2)"
    using add by (simp add: a0_def)
  then have run: "processEntry P (VarcEntry_of_data P path data FILE) options a0 m = Inr (True, a2, m2)"
    using open0 by (simp add: addVirtualFile_def)
  from processEntry_ok [OF run stored_ok_of_data ok0] e0
  obtain entry where ok2: "archive_ok f a2" and fm: "files m2 = files m"
    and cm: "creatable m2 = creatable m"
    and es: "m_entries a2 = [entry]" and p: "m_relativePath entry = path"
    and st: "stored_ok entry"
    by (auto simp: VarcEntry_of_data_def)
  have size': "image_size (m_entries a2) < 2 ^ 64"
    using size path st
    by (simp add: es image_size_def entry_record_def length_EntryHeader_serialize
          length_bytes_of_string stored_ok_def CHECKSUM_SIZE_def MAX_PATH_LENGTH_def p)
  have fit: "paths_fit (m_entries a2)"
    using path by (simp add: es p paths_fit_def)
  have fl: "flags (m_header (updateHeader a2)) = flags (m_header a2)"
    by (simp add: updateHeader_def es)
  have pw': "GlobalHeader_isEncrypted (m_header (updateHeader a2))
                 \<Longrightarrow> password \<noteq> [] \<and> IV_SIZE \<le> length (entropy m2)"
    using pw by (simp add: GlobalHeader_isEncrypted_def fl)
  have "\<exists>a3 m3 a4 m4.
           save a2 m2 [] = Inr (True, a3, m3)
           \<and> open_archive P a3 m3 f password = Inr (True, a4, m4)
           \<and> m_entries a4 = map (reloaded P) (m_entries a2)
           \<and> fileCount (m_header a4) = of_nat (length (m_entries a2))
           \<and> flags (m_header a4) = flags (m_header (updateHeader a2))
           \<and> m_loaded a4
           \<and> files m4 = (files m2)(f \<mapsto> archive_image a2) \<and> creatable m4 = creatable m2"
    using ok2 f _ fit size' _ pw'
    by (rule save_then_open) (simp_all add: cm crf es)
  then obtain a3 m3 a4 m4 where
    s: "save a2 m2 [] = Inr (True, a3, m3)"
    and opn: "open_archive P a3 m3 f password = Inr (True, a4, m4)"
    and es4: "m_entries a4 = [reloaded P entry]"
    and cm4: "creatable m4 = creatable m"
    by (auto simp: es cm)
  have ex: "extractFile a4 m4 path out password
              = (True, a4, m4\<lparr>files := (files m4)(out \<mapsto> m_data entry)\<rparr>)"
    using es4 p by (rule extractFile_reloaded) (simp add: cm4 cro)
  have "round_trip P m f path data options password out = Inr (Some (m_data entry))"
    by (simp add: round_trip_def create_add_save_def cr add' s opn ex)
  with es show ?thesis by blast
qed

text \<open>Without encryption: the entry holds what the compression step leaves.\<close>

lemma round_trip_not_encrypted:
  assumes f: "f \<noteq> []" and crf: "creatable m f" and cro: "creatable m out"
      and path: "length path \<le> MAX_PATH_LENGTH"
      and opts: "\<not> opt_encrypt options \<or> opt_password options = []"
      and stored: "stored =
             (if opt_compress options
                 \<and> cr_success (compress P (CompressionEngine_new CompressionLevel_DEFAULT) data)
              then compressedData (compress P (CompressionEngine_new CompressionLevel_DEFAULT) data)
              else data)"
      and len: "length stored < 2 ^ 63"
  shows "round_trip P m f path data options password out = Inr (Some stored)"
proof -
  define a0 where "a0 = Archive_new\<lparr>m_filepath := f, m_modified := True, m_loaded := True\<rparr>"
  have mc0: "m_compression a0 = CompressionEngine_new CompressionLevel_DEFAULT"
    and op: "isOpen a0" and e0: "m_entries a0 = []" and h0: "m_header a0 = GlobalHeader_new"
    by (simp_all add: a0_def Archive_new_def isOpen_def)
  have d: "m_data (VarcEntry_of_data P path data FILE) = data"
    by (simp add: VarcEntry_of_data_def)
  obtain a2 where add: "addVirtualFile P path data options a0 m = Inr (True, a2, m)"
    and es: "\<exists>entry. m_entries a2 = [entry] \<and> m_data entry = stored"
    and h: "m_header a2 = GlobalHeader_new"
    using stored
    by (simp add: addVirtualFile_def op processEntry_plain [OF opts] mc0 e0 h0 d
          setFlags_def setCompressedSize_def setData_def)
  have size: "list_all (\<lambda>entry. length (m_data entry) < 2 ^ 63) (m_entries a2)"
    using len es by auto
  have enc: "\<not> GlobalHeader_isEncrypted (m_header a2)"
    by (simp add: h GlobalHeader_new_def GlobalHeader_isEncrypted_def)
  have "\<exists>entry. m_entries a2 = [entry]
           \<and> round_trip P m f path data options password out = Inr (Some (m_data entry))"
    using add [unfolded a0_def] f crf cro path size
    by (rule round_trip_stored) (simp add: enc)
  then show ?thesis
    using es by auto
qed

text \<open>
  With encryption, on the fresh archive of the round trip: the first 32 random bytes are
  the salt, the next 16 the IV of the cipher.
\<close>

lemma round_trip_encrypted:
  assumes f: "f \<noteq> []" and crf: "creatable m f" and cro: "creatable m out"
      and path: "length path \<le> MAX_PATH_LENGTH"
      and opts: "opt_encrypt options" "opt_password options \<noteq> []"
      and rng: "SALT_SIZE + IV_SIZE + IV_SIZE + IV_SIZE \<le> length (entropy m)"
      and pw: "password \<noteq> []"
      and ct: "AES_256_CBC_encrypt P
                 (fixed_buffer AES_KEY_SIZE
                    (PBKDF2_HMAC P (opt_password options) (take SALT_SIZE (entropy m))
                       PBKDF2_ITERATIONS AES_KEY_SIZE))
                 (take IV_SIZE (drop SALT_SIZE (entropy m))) data = Inr ct"
      and stored: "stored =
             (if opt_compress options
                 \<and> cr_success (compress P (CompressionEngine_new CompressionLevel_DEFAULT) ct)
              then compressedData (compress P (CompressionEngine_new CompressionLevel_DEFAULT) ct)
              else ct)"
      and len: "length stored < 2 ^ 63"
  shows "round_trip P m f path data options password out = Inr (Some stored)"
proof -
  define a0 where "a0 = Archive_new\<lparr>m_filepath := f, m_modified := True, m_loaded := True\<rparr>"
  define slt where "slt = take SALT_SIZE (entropy m)"
  define ent1 where "ent1 = drop SALT_SIZE (entropy m)"
  define ent2 where "ent2 = drop IV_SIZE ent1"
  define ent3 where "ent3 = drop IV_SIZE ent2"
  have l: "SALT_SIZE \<le> length (entropy m)" "IV_SIZE \<le> length ent1" "IV_SIZE \<le> length ent2"
      "IV_SIZE \<le> length ent3"
    using rng by (simp_all add: ent1_def ent2_def ent3_def)
  have ninit: "\<not> isInitialized (m_crypto a0)" and op: "isOpen a0" and e0: "m_entries a0 = []"
    and mc0: "m_compression a0 = CompressionEngine_new CompressionLevel_DEFAULT"
    by (simp_all add: a0_def Archive_new_def CryptoEngine_new_def isInitialized_def isOpen_def)
  define c where "c = (m_crypto a0)\<lparr> m_key := fixed_buffer AES_KEY_SIZE
                           (PBKDF2_HMAC P (opt_password options) slt PBKDF2_ITERATIONS AES_KEY_SIZE),
                         m_iv := take IV_SIZE ent1, m_initialized := True \<rparr>"
  have salt: "generateSalt SALT_SIZE (entropy m) = Inr (slt, ent1)"
    unfolding slt_def ent1_def using l(1) by (rule generateSalt_ok)
  have init: "initializeFromPassword P (opt_password options) slt (m_crypto a0) ent1 = Inr (c, ent2)"
    unfolding c_def ent2_def using opts(2) l(2) by (rule initializeFromPassword_ok)
  have giv: "generateIV ent2 = Inr (take IV_SIZE ent2, ent3)"
    unfolding ent3_def using l(3) by (rule generateIV_ok)
  have ci: "isInitialized c"
    unfolding c_def isInitialized_after using l(2) by simp
  have "AES_256_CBC_encrypt P (m_key c) (m_iv c) data = Inr ct"
    using ct by (simp add: c_def slt_def ent1_def)
  then have enc: "encrypt P c data = Inr ct"
    by (simp add: encrypt_def ci)
  define entry where "entry = VarcEntry_of_data P path data FILE"
  have d: "m_data entry = data"
    by (simp add: entry_def VarcEntry_of_data_def)
  obtain a1 m2 where pe: "processEntry_encrypt P entry options a0 m
      = Inr (setFlags (m_flags (setData P ct entry) OR EntryFlags_ENCRYPTED) (setData P ct entry),
             a1, m2)"
    and c1: "m_entries a1 = []"
    and ent: "entropy m2 = ent3"
    and mc: "m_compression a1 = CompressionEngine_new CompressionLevel_DEFAULT"
    using opts ninit
    by (simp add: processEntry_encrypt_def salt init giv enc Let_def e0 d mc0)
  obtain a2 where add: "addVirtualFile P path data options a0 m = Inr (True, a2, m2)"
    and es: "\<exists>entry. m_entries a2 = [entry] \<and> m_data entry = stored"
    using c1 stored
    by (simp add: addVirtualFile_def op processEntry_def pe [unfolded entry_def] mc
          processEntry_compress_def setFlags_def setData_def setCompressedSize_def Let_def)
  have size: "list_all (\<lambda>entry. length (m_data entry) < 2 ^ 63) (m_entries a2)"
    using len es by auto
  have "\<exists>entry. m_entries a2 = [entry]
           \<and> round_trip P m f path data options password out = Inr (Some (m_data entry))"
    using add [unfolded a0_def] f crf cro path size
    by (rule round_trip_stored) (use pw l(4) ent in simp)
  then show ?thesis
    using es by auto
qed

text \<open>
  C1. The claim: for every non-empty content \<open>B\<close>, every path of at most 65535 bytes and
  every combination of the compress and the encrypt flag (with a non-empty password when
  encrypting), \<^verbatim>\<open>create\<close>, \<^verbatim>\<open>addVirtualFile\<close>, \<^verbatim>\<open>save\<close>, \<^verbatim>\<open>open\<close> and the extraction
  of the path yield exactly \<open>B\<close>.

  On the code \<^verbatim>\<open>extractFile\<close> writes the data of the entry as it is stored: nothing in
  \<^verbatim>\<open>Archive\<close> inflates or decrypts. For every content, empty or not, the five calls
  return true and the extracted file holds
  \<^item> the content itself when the entry is neither compressed nor encrypted;
  \<^item> with compression alone, what \<^verbatim>\<open>compress\<close> returned for the content when it reported
    success, and the content itself when it did not; for a content that is not empty and
    shorter than \<open>2\<^sup>3\<^sup>2\<close> bytes, success is the stream \<open>z\<close> that zlib made of it;
  \<^item> with encryption, the ciphertext \<open>ct\<close> of the content, and in place of it what
    \<^verbatim>\<open>compress\<close> returned for \<open>ct\<close> when compression is on and reported success; this
    for every non-empty password given to \<^verbatim>\<open>open\<close>.

  The key and the IV of the cipher are those \<^verbatim>\<open>processEntry\<close> sets up on a fresh archive.
  The salts and IVs drawn on the way take 80 random bytes. A \<^verbatim>\<open>std::vector\<close> of bytes
  holds fewer than \<open>2\<^sup>6\<^sup>3\<close> of them.
\<close>

theorem C1_round_trip_returns_stored_bytes:
  assumes "f \<noteq> []" and "creatable m f" and "creatable m out"
      and "length path \<le> MAX_PATH_LENGTH"
  shows
    "(\<not> opt_compress options \<and> (\<not> opt_encrypt options \<or> opt_password options = [])
        \<and> length data < 2 ^ 63
      \<longrightarrow> round_trip P m f path data options password out = Inr (Some data))
     \<and> (opt_compress options \<and> (\<not> opt_encrypt options \<or> opt_password options = [])
        \<and> stored =
             (if cr_success (compress P (CompressionEngine_new CompressionLevel_DEFAULT) data)
              then compressedData (compress P (CompressionEngine_new CompressionLevel_DEFAULT) data)
              else data)
        \<and> length stored < 2 ^ 63
      \<longrightarrow> round_trip P m f path data options password out = Inr (Some stored))
     \<and> (opt_compress options \<and> (\<not> opt_encrypt options \<or> opt_password options = [])
        \<and> data \<noteq> [] \<and> length data < 2 ^ 32
        \<and> zlib_deflate P CompressionLevel_DEFAULT 31 data = DeflateStreamEnd z
        \<and> length z < 2 ^ 63
      \<longrightarrow> round_trip P m f path data options password out = Inr (Some z))
     \<and> (opt_encrypt options \<and> opt_password options \<noteq> [] \<and> password \<noteq> []
        \<and> SALT_SIZE + IV_SIZE + IV_SIZE + IV_SIZE \<le> length (entropy m)
        \<and> AES_256_CBC_encrypt P
              (fixed_buffer AES_KEY_SIZE
                 (PBKDF2_HMAC P (opt_password options) (take SALT_SIZE (entropy m))
                    PBKDF2_ITERATIONS AES_KEY_SIZE))
              (take IV_SIZE (drop SALT_SIZE (entropy m))) data = Inr ct
        \<and> stored' =
             (if opt_compress options
                 \<and> cr_success (compress P (CompressionEngine_new CompressionLevel_DEFAULT) ct)
              then compressedData (compress P (CompressionEngine_new CompressionLevel_DEFAULT) ct)
              else ct)
        \<and> length stored' < 2 ^ 63
      \<longrightarrow> round_trip P m f path data options password out = Inr (Some stored'))"
proof (intro conjI impI)
  assume "\<not> opt_compress options \<and> (\<not> opt_encrypt options \<or> opt_password options = [])
        \<and> length data < 2 ^ 63"
  with assms show "round_trip P m f path data options password out = Inr (Some data)"
    by (intro round_trip_not_encrypted) simp_all
next
  assume "opt_compress options \<and> (\<not> opt_encrypt options \<or> opt_password options = [])
        \<and> stored =
             (if cr_success (compress P (CompressionEngine_new CompressionLevel_DEFAULT) data)
              then compressedData (compress P (CompressionEngine_new CompressionLevel_DEFAULT) data)
              else data)
        \<and> length stored < 2 ^ 63"
  then have o: "\<not> opt_encrypt options \<or> opt_password options = []"
    and st: "stored =
             (if opt_compress options
                 \<and> cr_success (compress P (CompressionEngine_new CompressionLevel_DEFAULT) data)
              then compressedData (compress P (CompressionEngine_new CompressionLevel_DEFAULT) data)
              else data)"
    and len: "length stored < 2 ^ 63"
    by auto
  from assms o st len
  show "round_trip P m f path data options password out = Inr (Some stored)"
    by (rule round_trip_not_encrypted)
next
  assume a: "opt_compress options \<and> (\<not> opt_encrypt options \<or> opt_password options = [])
        \<and> data \<noteq> [] \<and> length data < 2 ^ 32
        \<and> zlib_deflate P CompressionLevel_DEFAULT 31 data = DeflateStreamEnd z
        \<and> length z < 2 ^ 63"
  then have "compress P (CompressionEngine_new CompressionLevel_DEFAULT) data =
     \<lparr> compressedData = z, cr_originalSize = of_nat (length data),
       cr_compressedSize = of_nat (length z), cr_success = True, cr_errorMessage = [] \<rparr>"
    by (intro compress_ok) (simp_all add: CompressionEngine_new_def)
  with a have o: "\<not> opt_encrypt options \<or> opt_password options = []"
    and st: "z =
             (if opt_compress options
                 \<and> cr_success (compress P (CompressionEngine_new CompressionLevel_DEFAULT) data)
              then compressedData (compress P (CompressionEngine_new CompressionLevel_DEFAULT) data)
              else data)"
    and len: "length z < 2 ^ 63"
    by auto
  from assms o st len
  show "round_trip P m f path data options password out = Inr (Some z)"
    by (rule round_trip_not_encrypted)
next
  assume a: "opt_encrypt options \<and> opt_password options \<noteq> [] \<and> password \<noteq> []
        \<and> SALT_SIZE + IV_SIZE + IV_SIZE + IV_SIZE \<le> length (entropy m)
        \<and> AES_256_CBC_encrypt P
              (fixed_buffer AES_KEY_SIZE
                 (PBKDF2_HMAC P (opt_password options) (take SALT_SIZE (entropy m))
                    PBKDF2_ITERATIONS AES_KEY_SIZE))
              (take IV_SIZE (drop SALT_SIZE (entropy m))) data = Inr ct
        \<and> stored' =
             (if opt_compress options
                 \<and> cr_success (compress P (CompressionEngine_new CompressionLevel_DEFAULT) ct)
              then compressedData (compress P (CompressionEngine_new CompressionLevel_DEFAULT) ct)
              else ct)
        \<and> length stored' < 2 ^ 63"
  show "round_trip P m f path data options password out = Inr (Some stored')"
    using assms a by (intro round_trip_encrypted [where ct = ct and stored = stored']) blast+
qed

lemma demo_env:
  "creatable demo_machine p" "length (entropy demo_machine) = 128"
  by (simp_all add: demo_machine_def)

lemma demo_deflate: "zlib_deflate demo_prims level bits d = DeflateStreamEnd ([0x1F, 0x8B] @ d)"
  by (simp add: demo_prims_def)

lemma demo_compress:
  assumes "length d < 2 ^ 32"
  shows "cr_success (compress demo_prims eng d)"
    and "compressedData (compress demo_prims eng d) = (if d = [] then [] else [0x1F, 0x8B] @ d)"
  using assms by (simp_all add: compress_def demo_deflate Let_def)

text \<open>
  The counterexample: the content is the one byte \<open>0x41\<close>, stored compressed. With the
  stand-in for zlib the five calls return true and the extracted file holds the three
  bytes of the stream; with zlib itself it holds the gzip stream of the byte.
\<close>

theorem C1_counterexample:
  "round_trip demo_prims demo_machine ''demo.varc'' ''a'' [0x41] (demo_options True False [])
     [] ''out'' = Inr (Some [0x1F, 0x8B, 0x41])"
  by (rule round_trip_not_encrypted)
     (simp_all add: demo_env demo_options_def demo_compress MAX_PATH_LENGTH_def)

theorem C1_witness:
  "round_trip demo_prims demo_machine ''demo.varc'' ''a'' [0x41] (demo_options False False [])
     [] ''out'' = Inr (Some [0x41])
   \<and> round_trip demo_prims demo_machine ''demo.varc'' ''b'' [0x42, 0x43]
       (demo_options True False []) [] ''out'' = Inr (Some [0x1F, 0x8B, 0x42, 0x43])
   \<and> round_trip demo_prims demo_machine ''demo.varc'' ''b'' []
       (demo_options True False []) [] ''out'' = Inr (Some [])
   \<and> round_trip demo_prims_deflate_fails demo_machine ''demo.varc'' ''b'' [0x42, 0x43]
       (demo_options True False []) [] ''out'' = Inr (Some [0x42, 0x43])
   \<and> round_trip demo_prims demo_machine ''demo.varc'' ''a'' [0x41]
       (demo_options False True ''pw'') ''pw'' ''out'' = Inr (Some (0x31 # replicate 15 0x0F))
   \<and> round_trip demo_prims demo_machine ''demo.varc'' ''a'' [0x41]
       (demo_options True True ''pw'') ''pw'' ''out''
       = Inr (Some ([0x1F, 0x8B, 0x31] @ replicate 15 0x0F))"
proof -
  have env: "''demo.varc'' \<noteq> []" "creatable demo_machine ''demo.varc''"
      "creatable demo_machine ''out''" "length ''a'' \<le> MAX_PATH_LENGTH"
      "length ''b'' \<le> MAX_PATH_LENGTH"
    by (simp_all add: demo_env MAX_PATH_LENGTH_def)
  have rng: "SALT_SIZE + IV_SIZE + IV_SIZE + IV_SIZE \<le> length (entropy demo_machine)"
    by (simp add: demo_env SALT_SIZE_def IV_SIZE_def)
  have fails: "\<not> cr_success (compress demo_prims_deflate_fails eng [0x42, 0x43])" for eng
    by (simp add: compress_def demo_prims_deflate_fails_def)
  note plain = C1_round_trip_returns_stored_bytes [OF env(1,2,3,4),
      where P = demo_prims and data = "[0x41]" and options = "demo_options False False []"
        and password = "[]"]
  note compressed = C1_round_trip_returns_stored_bytes [OF env(1,2,3,5),
      where P = demo_prims and data = "[0x42, 0x43]" and options = "demo_options True False []"
        and password = "[]" and z = "[0x1F, 0x8B, 0x42, 0x43]"]
  note empty = C1_round_trip_returns_stored_bytes [OF env(1,2,3,5),
      where P = demo_prims and data = "[]" and options = "demo_options True False []"
        and password = "[]" and stored = "[]"]
  note failed = C1_round_trip_returns_stored_bytes [OF env(1,2,3,5),
      where P = demo_prims_deflate_fails and data = "[0x42, 0x43]"
        and options = "demo_options True False []" and password = "[]"
        and stored = "[0x42, 0x43]"]
  note encrypted = C1_round_trip_returns_stored_bytes [OF env(1,2,3,4),
      where P = demo_prims and data = "[0x41]" and options = "demo_options False True ''pw''"
        and password = "''pw''" and ct = "0x31 # replicate 15 0x0F"
        and stored' = "0x31 # replicate 15 0x0F"]
  note both = C1_round_trip_returns_stored_bytes [OF env(1,2,3,4),
      where P = demo_prims and data = "[0x41]" and options = "demo_options True True ''pw''"
        and password = "''pw''" and ct = "0x31 # replicate 15 0x0F"
        and stored' = "[0x1F, 0x8B, 0x31] @ replicate 15 0x0F"]
  show ?thesis
    using plain compressed empty failed encrypted both rng fails
    by (simp add: demo_options_def demo_deflate demo_cipher demo_compress)
qed

section \<open>Opening with a password\<close>








end
